theory Spec2Isabelle
  imports Main "HOL-Library.Sublist"
begin

section \<open>Data model\<close>

text \<open>
  \<^verbatim>\<open>HeadingCache\<close> (from the host API): the label \<^verbatim>\<open>heading\<close> and the raw \<^verbatim>\<open>level\<close>.
  The opaque \<^verbatim>\<open>position\<close> is never read by the code under study and is left in the
  record's extension slot.  Levels are JavaScript numbers that hold integers.
\<close>

record HeadingCache =
  heading :: string
  level :: int

text \<open>\<^verbatim>\<open>FilteredHeading\<close> of \<^verbatim>\<open>headings.ts\<close>: a heading and its normalized depth.\<close>

record FilteredHeading =
  heading :: HeadingCache
  depth :: nat

datatype Style = nestedList | nestedOrderedList | inlineFirstLevel

text \<open>
  \<^verbatim>\<open>TableOfContentsOptions\<close> is declared in \<^verbatim>\<open>defaults.ts\<close>, which lies outside the
  verified sources; the record holds the fields that \<^verbatim>\<open>headings.ts\<close> reads.  The pattern type \<open>'p\<close> is left
  open: \<^verbatim>\<open>headings.ts\<close> only tests \<^verbatim>\<open>options.exclude\<close> for being set.
\<close>

record 'p TableOfContentsOptions =
  title :: string
  style :: Style
  minLevel :: int
  maxLevel :: int
  "include" :: "'p option"
  exclude :: "'p option"
  hideWhenEmpty :: bool

text \<open>
  \<^verbatim>\<open>isHeadingAllowed\<close> and \<^verbatim>\<open>getFormattedMarkdownHeading\<close> live in \<^verbatim>\<open>markdown.ts\<close>, which lies
  outside the verified sources.  Every function below takes them as parameters
  \<open>allowed\<close> and \<open>fmt\<close>, so that each result holds for whatever these two compute.
\<close>

type_synonym 'p allowed_fn = "string \<Rightarrow> 'p TableOfContentsOptions \<Rightarrow> bool"
type_synonym 'p format_fn = "string \<Rightarrow> 'p TableOfContentsOptions \<Rightarrow> string"

section \<open>The heading filter (\<^verbatim>\<open>headings.ts\<close>)\<close>

text \<open>
  \<^verbatim>\<open>Math.min(...levels)\<close> is \<^verbatim>\<open>Infinity\<close> on no arguments, so the effective minimum
  level is an integer or \<^verbatim>\<open>Infinity\<close>.
\<close>

datatype bound = Fin int | Infinity

fun Math_min :: "int list \<Rightarrow> bound" where
  "Math_min [] = Infinity"
| "Math_min (x # xs) = (case Math_min xs of Infinity \<Rightarrow> Fin x | Fin m \<Rightarrow> Fin (min x m))"

text \<open>\<^verbatim>\<open>level < minLevel\<close> against such a bound.\<close>

fun lt_bound :: "int \<Rightarrow> bound \<Rightarrow> bool" where
  "lt_bound x Infinity = True"
| "lt_bound x (Fin m) = (x < m)"

text \<open>
  \<^verbatim>\<open>const minLevel = options.minLevel > 0 ? options.minLevel : Math.min(...headings.map(h => h.level))\<close>
\<close>

definition effectiveMinLevel :: "HeadingCache list \<Rightarrow> 'p TableOfContentsOptions \<Rightarrow> bound" where
  "effectiveMinLevel headings options =
     (if minLevel options > 0 then Fin (minLevel options) else Math_min (map level headings))"

text \<open>
  One iteration of the \<^verbatim>\<open>for\<close> loop of \<^verbatim>\<open>getFilteredHeadings\<close>.  The loop state is the pair
  of \<^verbatim>\<open>filteredHeadings\<close> and \<^verbatim>\<open>unallowedLevel\<close>; every \<^verbatim>\<open>continue\<close> returns the state as it
  stands at that point.
\<close>

definition filterStep ::
  "'p allowed_fn \<Rightarrow> 'p TableOfContentsOptions \<Rightarrow> bound \<Rightarrow>
   HeadingCache list \<times> int \<Rightarrow> HeadingCache \<Rightarrow> HeadingCache list \<times> int" where
  "filterStep allowed options minLvl st h =
     (let filteredHeadings = fst st; unallowedLevel = snd st in
      if unallowedLevel > 0 \<and> level h > unallowedLevel then (filteredHeadings, unallowedLevel)
      else
        let unallowedLevel1 = (if level h \<le> unallowedLevel then 0 else unallowedLevel) in
        if \<not> allowed (HeadingCache.heading h) options then
          (filteredHeadings, if exclude options \<noteq> None then level h else unallowedLevel1)
        else if lt_bound (level h) minLvl then (filteredHeadings, unallowedLevel1)
        else if maxLevel options > 0 \<and> level h > maxLevel options then
          (filteredHeadings, unallowedLevel1)
        else if length (HeadingCache.heading h) = 0 then (filteredHeadings, unallowedLevel1)
        else (filteredHeadings @ [h], unallowedLevel1))"

definition filterLoop ::
  "'p allowed_fn \<Rightarrow> 'p TableOfContentsOptions \<Rightarrow> bound \<Rightarrow>
   HeadingCache list \<times> int \<Rightarrow> HeadingCache list \<Rightarrow> HeadingCache list \<times> int" where
  "filterLoop allowed options minLvl st headings =
     foldl (filterStep allowed options minLvl) st headings"

text \<open>
  \<^verbatim>\<open>computeNormalizedDepths\<close>.  The array \<^verbatim>\<open>levelStack\<close> is a list whose head is the
  array's last element (the top of the stack); \<open>popLevels\<close> is the inner \<^verbatim>\<open>while\<close> loop.
\<close>

fun popLevels :: "int list \<Rightarrow> int \<Rightarrow> int list" where
  "popLevels [] l = []"
| "popLevels (t # levelStack) l = (if t \<ge> l then popLevels levelStack l else t # levelStack)"

definition depthStep :: "nat list \<times> int list \<Rightarrow> HeadingCache \<Rightarrow> nat list \<times> int list" where
  "depthStep st h =
     (let depths = fst st; levelStack = level h # popLevels (snd st) (level h)
      in (depths @ [length levelStack - 1], levelStack))"

definition computeNormalizedDepths :: "HeadingCache list \<Rightarrow> nat list" where
  "computeNormalizedDepths headings = fst (foldl depthStep ([], []) headings)"

text \<open>
  \<^verbatim>\<open>getFilteredHeadings\<close>: the loop from \<^verbatim>\<open>unallowedLevel = 0\<close>, the depths of the survivors,
  and \<^verbatim>\<open>filteredHeadings.map((heading, i) => ({ heading, depth: depths[i] }))\<close>.
\<close>

definition getFilteredHeadings ::
  "'p allowed_fn \<Rightarrow> HeadingCache list \<Rightarrow> 'p TableOfContentsOptions \<Rightarrow> FilteredHeading list" where
  "getFilteredHeadings allowed headings options =
     (let minLvl = effectiveMinLevel headings options;
          filteredHeadings = fst (filterLoop allowed options minLvl ([], 0) headings);
          depths = computeNormalizedDepths filteredHeadings
      in map (\<lambda>(h, i). \<lparr>FilteredHeading.heading = h, depth = depths ! i\<rparr>)
             (zip filteredHeadings [0..<length filteredHeadings]))"

section \<open>The markdown builders (\<^verbatim>\<open>headings.ts\<close>)\<close>

text \<open>\<^verbatim>\<open>Array.prototype.join\<close> on strings.\<close>

fun join :: "string \<Rightarrow> string list \<Rightarrow> string" where
  "join sep [] = []"
| "join sep [x] = x"
| "join sep (x # y # ys) = x @ sep @ join sep (y # ys)"

definition tab :: char where
  "tab = CHR 0x09"

definition newline :: char where
  "newline = CHR 0x0A"

text \<open>\<^verbatim>\<open>getMarkdownListFromHeadings\<close>; \<^verbatim>\<open>null\<close> is \<open>None\<close>.\<close>

definition getMarkdownListFromHeadings ::
  "'p allowed_fn \<Rightarrow> 'p format_fn \<Rightarrow> HeadingCache list \<Rightarrow> bool \<Rightarrow> 'p TableOfContentsOptions \<Rightarrow>
   string option" where
  "getMarkdownListFromHeadings allowed fmt headings isOrdered options =
     (let prefix = (if isOrdered then ''1.'' else ''-'');
          filtered = getFilteredHeadings allowed headings options;
          lines = map (\<lambda>f. replicate (depth f) tab @ prefix @ '' '' @
                            fmt (HeadingCache.heading (FilteredHeading.heading f)) options) filtered
      in if length lines > 0 then Some (join [newline] lines) else None)"

definition getMarkdownNestedListFromHeadings ::
  "'p allowed_fn \<Rightarrow> 'p format_fn \<Rightarrow> HeadingCache list \<Rightarrow> 'p TableOfContentsOptions \<Rightarrow>
   string option" where
  "getMarkdownNestedListFromHeadings allowed fmt headings options =
     getMarkdownListFromHeadings allowed fmt headings False options"

definition getMarkdownNestedOrderedListFromHeadings ::
  "'p allowed_fn \<Rightarrow> 'p format_fn \<Rightarrow> HeadingCache list \<Rightarrow> 'p TableOfContentsOptions \<Rightarrow>
   string option" where
  "getMarkdownNestedOrderedListFromHeadings allowed fmt headings options =
     getMarkdownListFromHeadings allowed fmt headings True options"

text \<open>\<^verbatim>\<open>getMarkdownInlineFirstLevelFromHeadings\<close>: three chained filters, a map and a join.\<close>

definition getMarkdownInlineFirstLevelFromHeadings ::
  "'p allowed_fn \<Rightarrow> 'p format_fn \<Rightarrow> HeadingCache list \<Rightarrow> 'p TableOfContentsOptions \<Rightarrow>
   string option" where
  "getMarkdownInlineFirstLevelFromHeadings allowed fmt headings options =
     (let minLvl = effectiveMinLevel headings options;
          items = map (\<lambda>h. fmt (HeadingCache.heading h) options)
                    (filter (\<lambda>h. allowed (HeadingCache.heading h) options)
                      (filter (\<lambda>h. length (HeadingCache.heading h) > 0)
                        (filter (\<lambda>h. Fin (level h) = minLvl) headings)))
      in if length items > 0 then Some (join '' | '' items) else None)"

text \<open>
  The table \<^verbatim>\<open>markdownHandlersByStyle\<close> of \<^verbatim>\<open>getMarkdownFromHeadings\<close>, indexed by
  \<^verbatim>\<open>options.style\<close>.
\<close>

definition markdownHandlersByStyle ::
  "Style \<Rightarrow> 'p allowed_fn \<Rightarrow> 'p format_fn \<Rightarrow> HeadingCache list \<Rightarrow>
   'p TableOfContentsOptions \<Rightarrow> string option" where
  "markdownHandlersByStyle s =
     (case s of
        nestedList \<Rightarrow> getMarkdownNestedListFromHeadings
      | nestedOrderedList \<Rightarrow> getMarkdownNestedOrderedListFromHeadings
      | inlineFirstLevel \<Rightarrow> getMarkdownInlineFirstLevelFromHeadings)"

text \<open>\<^verbatim>\<open>getMarkdownFromHeadings\<close>.\<close>

definition getMarkdownFromHeadings ::
  "'p allowed_fn \<Rightarrow> 'p format_fn \<Rightarrow> HeadingCache list \<Rightarrow> 'p TableOfContentsOptions \<Rightarrow> string" where
  "getMarkdownFromHeadings allowed fmt headings options =
     (let titleMarkdown =
            (if length (title options) > 0
             then title options @ (if style options = inlineFirstLevel then '' '' else [newline])
             else []);
          markdownHeadings = markdownHandlersByStyle (style options) allowed fmt headings options
      in case markdownHeadings of
           None \<Rightarrow> if hideWhenEmpty options then []
                   else titleMarkdown @ ''_Table of contents: no headings found_''
         | Some body \<Rightarrow> titleMarkdown @ body)"

section \<open>The argument limit of the engine\<close>

text \<open>
  \<^verbatim>\<open>Math.min(...headings.map(h => h.level))\<close> passes one argument per heading.  An engine
  accepts only so many arguments in one call and raises \<^verbatim>\<open>RangeError\<close> beyond that; the
  language leaves the bound to the engine, so it is the parameter \<open>argLimit\<close> here.  The
  functions above describe the calls that the engine accepts; the functions below are the
  same code with the raise made explicit, an error being \<open>Inl\<close>.  Nothing in
  \<^verbatim>\<open>headings.ts\<close> catches the error.
\<close>

datatype js_error = RangeError

definition Math_min_spread :: "nat \<Rightarrow> int list \<Rightarrow> js_error + bound" where
  "Math_min_spread argLimit xs =
     (if length xs > argLimit then Inl RangeError else Inr (Math_min xs))"

definition effectiveMinLevelE ::
  "nat \<Rightarrow> HeadingCache list \<Rightarrow> 'p TableOfContentsOptions \<Rightarrow> js_error + bound" where
  "effectiveMinLevelE argLimit headings options =
     (if minLevel options > 0 then Inr (Fin (minLevel options))
      else Math_min_spread argLimit (map level headings))"

definition getFilteredHeadingsE ::
  "nat \<Rightarrow> 'p allowed_fn \<Rightarrow> HeadingCache list \<Rightarrow> 'p TableOfContentsOptions \<Rightarrow>
   js_error + FilteredHeading list" where
  "getFilteredHeadingsE argLimit allowed headings options =
     (case effectiveMinLevelE argLimit headings options of
        Inl e \<Rightarrow> Inl e
      | Inr minLvl \<Rightarrow>
          (let filteredHeadings = fst (filterLoop allowed options minLvl ([], 0) headings);
               depths = computeNormalizedDepths filteredHeadings
           in Inr (map (\<lambda>(h, i). \<lparr>FilteredHeading.heading = h, depth = depths ! i\<rparr>)
                     (zip filteredHeadings [0..<length filteredHeadings]))))"

definition getMarkdownListFromHeadingsE ::
  "nat \<Rightarrow> 'p allowed_fn \<Rightarrow> 'p format_fn \<Rightarrow> HeadingCache list \<Rightarrow> bool \<Rightarrow>
   'p TableOfContentsOptions \<Rightarrow> js_error + string option" where
  "getMarkdownListFromHeadingsE argLimit allowed fmt headings isOrdered options =
     (let prefix = (if isOrdered then ''1.'' else ''-'') in
      case getFilteredHeadingsE argLimit allowed headings options of
        Inl e \<Rightarrow> Inl e
      | Inr filtered \<Rightarrow>
          (let lines = map (\<lambda>f. replicate (depth f) tab @ prefix @ '' '' @
                              fmt (HeadingCache.heading (FilteredHeading.heading f)) options) filtered
           in Inr (if length lines > 0 then Some (join [newline] lines) else None)))"

definition getMarkdownInlineFirstLevelFromHeadingsE ::
  "nat \<Rightarrow> 'p allowed_fn \<Rightarrow> 'p format_fn \<Rightarrow> HeadingCache list \<Rightarrow> 'p TableOfContentsOptions \<Rightarrow>
   js_error + string option" where
  "getMarkdownInlineFirstLevelFromHeadingsE argLimit allowed fmt headings options =
     (case effectiveMinLevelE argLimit headings options of
        Inl e \<Rightarrow> Inl e
      | Inr minLvl \<Rightarrow>
          (let items = map (\<lambda>h. fmt (HeadingCache.heading h) options)
                         (filter (\<lambda>h. allowed (HeadingCache.heading h) options)
                           (filter (\<lambda>h. length (HeadingCache.heading h) > 0)
                             (filter (\<lambda>h. Fin (level h) = minLvl) headings)))
           in Inr (if length items > 0 then Some (join '' | '' items) else None)))"

definition markdownHandlersByStyleE ::
  "nat \<Rightarrow> Style \<Rightarrow> 'p allowed_fn \<Rightarrow> 'p format_fn \<Rightarrow> HeadingCache list \<Rightarrow>
   'p TableOfContentsOptions \<Rightarrow> js_error + string option" where
  "markdownHandlersByStyleE argLimit s allowed fmt headings options =
     (case s of
        nestedList \<Rightarrow> getMarkdownListFromHeadingsE argLimit allowed fmt headings False options
      | nestedOrderedList \<Rightarrow>
          getMarkdownListFromHeadingsE argLimit allowed fmt headings True options
      | inlineFirstLevel \<Rightarrow>
          getMarkdownInlineFirstLevelFromHeadingsE argLimit allowed fmt headings options)"

definition getMarkdownFromHeadingsE ::
  "nat \<Rightarrow> 'p allowed_fn \<Rightarrow> 'p format_fn \<Rightarrow> HeadingCache list \<Rightarrow> 'p TableOfContentsOptions \<Rightarrow>
   js_error + string" where
  "getMarkdownFromHeadingsE argLimit allowed fmt headings options =
     (let titleMarkdown =
            (if length (title options) > 0
             then title options @ (if style options = inlineFirstLevel then '' '' else [newline])
             else [])
      in case markdownHandlersByStyleE argLimit (style options) allowed fmt headings options of
           Inl e \<Rightarrow> Inl e
         | Inr markdownHeadings \<Rightarrow>
             Inr (case markdownHeadings of
                    None \<Rightarrow> if hideWhenEmpty options then []
                            else titleMarkdown @ ''_Table of contents: no headings found_''
                  | Some body \<Rightarrow> titleMarkdown @ body))"

section \<open>The foldable renderer (the plugin's main module, \<^verbatim>\<open>src/unnamed/part_000\<close>)\<close>

text \<open>
  \<^verbatim>\<open>buildTree\<close> creates \<^verbatim>\<open>TreeNode\<close> objects and later pushes onto the \<^verbatim>\<open>children\<close> array of
  an object that \<^verbatim>\<open>roots\<close>, the stack and other \<^verbatim>\<open>children\<close> arrays refer to.  The objects
  therefore live in an explicit heap: a reference is an index into the list of all objects
  created so far, and \<^verbatim>\<open>children\<close> holds references.
\<close>

type_synonym ref = nat

record TreeNode =
  "text" :: string
  children :: "ref list"

type_synonym heap = "TreeNode list"

text \<open>
  The inner \<^verbatim>\<open>while\<close> loop of \<^verbatim>\<open>buildTree\<close>.  A stack entry is the pair of the node's
  reference and its depth; the head of the list is the array's last element.
\<close>

fun popStack :: "(ref \<times> nat) list \<Rightarrow> nat \<Rightarrow> (ref \<times> nat) list" where
  "popStack [] d = []"
| "popStack (entry # stack) d = (if snd entry \<ge> d then popStack stack d else entry # stack)"

text \<open>\<^verbatim>\<open>parent.children.push(node)\<close> on the heap.\<close>

definition pushChild :: "heap \<Rightarrow> ref \<Rightarrow> ref \<Rightarrow> heap" where
  "pushChild h parent node = h[parent := (h ! parent)\<lparr>children := children (h ! parent) @ [node]\<rparr>]"

text \<open>
  One iteration of the \<^verbatim>\<open>for\<close> loop of \<^verbatim>\<open>buildTree\<close>, on the state made of the heap,
  \<^verbatim>\<open>roots\<close> and \<^verbatim>\<open>stack\<close>: the formatted label (the local \<^verbatim>\<open>text\<close>, here \<open>lbl\<close>), the new
  object at a fresh reference, the pops, the attachment to the stack top or to \<^verbatim>\<open>roots\<close>,
  and the push.
\<close>

definition buildStep ::
  "'p format_fn \<Rightarrow> 'p TableOfContentsOptions \<Rightarrow> heap \<times> ref list \<times> (ref \<times> nat) list \<Rightarrow> FilteredHeading \<Rightarrow>
   heap \<times> ref list \<times> (ref \<times> nat) list" where
  "buildStep fmt options st item =
     (case st of (h, roots, stack) \<Rightarrow>
        let lbl = fmt (HeadingCache.heading (FilteredHeading.heading item)) options;
            node = length h;
            h1 = h @ [\<lparr>text = lbl, children = []\<rparr>];
            stack1 = popStack stack (depth item)
        in case stack1 of
             [] \<Rightarrow> (h1, roots @ [node], (node, depth item) # stack1)
           | entry # _ \<Rightarrow> (pushChild h1 (fst entry) node, roots, (node, depth item) # stack1))"

text \<open>\<^verbatim>\<open>buildTree\<close> returns \<^verbatim>\<open>roots\<close>; the heap the references point into comes with it.\<close>

definition buildTree ::
  "'p format_fn \<Rightarrow> 'p TableOfContentsOptions \<Rightarrow> FilteredHeading list \<Rightarrow> heap \<times> ref list" where
  "buildTree fmt options flat =
     (case foldl (buildStep fmt options) ([], [], []) flat of (h, roots, stack) \<Rightarrow> (h, roots))"

text \<open>
  What a reader of the returned structure sees: the tree below a reference, read off the
  heap by following \<^verbatim>\<open>children\<close>.  The traversal carries fuel; \<open>forestOf\<close> gives it one unit
  per object of the heap.
\<close>

datatype Tree = Node string "Tree list"

fun treeAt :: "nat \<Rightarrow> heap \<Rightarrow> ref \<Rightarrow> Tree option" where
  "treeAt 0 h r = None"
| "treeAt (Suc k) h r =
     (if r < length h
      then map_option (Node (text (h ! r))) (those (map (treeAt k h) (children (h ! r))))
      else None)"

definition forestOf :: "heap \<times> ref list \<Rightarrow> Tree list option" where
  "forestOf hr = those (map (treeAt (length (fst hr)) (fst hr)) (snd hr))"

text \<open>
  \<^verbatim>\<open>escapeHtml\<close>: four \<^verbatim>\<open>replaceAll\<close> passes, each replacing every occurrence of one
  character, in the order of the source.
\<close>

definition dquote :: char where
  "dquote = CHR 0x22"

definition replaceAll :: "char \<Rightarrow> string \<Rightarrow> string \<Rightarrow> string" where
  "replaceAll c replacement s = concat (map (\<lambda>x. if x = c then replacement else [x]) s)"

definition escapeHtml :: "string \<Rightarrow> string" where
  "escapeHtml t =
     replaceAll dquote ''&quot;''
       (replaceAll (CHR ''>'') ''&gt;''
         (replaceAll (CHR ''<'') ''&lt;''
           (replaceAll (CHR ''&'') ''&amp;'' t)))"

text \<open>
  \<^verbatim>\<open>wikitextToHtml\<close> replaces globally the matches of
  \<^verbatim>\<open>/\[\[#([^\]|]+)\|([^\]]+)\]\]/g\<close>.  \<open>matchLink\<close> is one attempt to match at the start of
  a string and returns the two groups and the text after the match.  Both groups are greedy
  runs over a character class that excludes the character the pattern requires next, so a
  shorter run can never match where the longest one fails, and the longest run decides.
\<close>

definition isLinkChar :: "char \<Rightarrow> bool" where
  "isLinkChar c = (c \<noteq> CHR '']'' \<and> c \<noteq> CHR ''|'')"

definition isDisplayChar :: "char \<Rightarrow> bool" where
  "isDisplayChar c = (c \<noteq> CHR '']'')"

definition matchLink :: "string \<Rightarrow> (string \<times> string \<times> string) option" where
  "matchLink s =
     (if take 3 s = ''[[#'' then
        (let r1 = drop 3 s; link = takeWhile isLinkChar r1; r2 = dropWhile isLinkChar r1 in
         if link \<noteq> [] \<and> take 1 r2 = ''|'' then
           (let r3 = drop 1 r2; display = takeWhile isDisplayChar r3;
                r4 = dropWhile isDisplayChar r3 in
            if display \<noteq> [] \<and> take 2 r4 = '']]'' then Some (link, display, drop 2 r4)
            else None)
         else None)
      else None)"

text \<open>The replacement callback of \<^verbatim>\<open>wikitextToHtml\<close>.\<close>

definition anchor :: "string \<Rightarrow> string \<Rightarrow> string" where
  "anchor link display =
     ''<a class='' @ [dquote] @ ''internal-link'' @ [dquote] @ '' data-href='' @ [dquote] @ ''#'' @
     escapeHtml link @ [dquote] @ ''>'' @ escapeHtml display @ ''</a>''"

text \<open>
  The global replace scans left to right: where the pattern matches, the replacement is
  emitted and the scan goes on after the match; elsewhere the character is copied.
\<close>

function wikitextToHtml :: "string \<Rightarrow> string" where
  "wikitextToHtml [] = []"
| "wikitextToHtml (c # cs) =
     (case matchLink (c # cs) of
        Some m \<Rightarrow> anchor (fst m) (fst (snd m)) @ wikitextToHtml (snd (snd m))
      | None \<Rightarrow> c # wikitextToHtml cs)"
  by pat_completeness auto
termination
proof (relation "measure length")
  show "wf (measure length)" by simp
next
  fix c cs m
  assume a: "matchLink (c # cs) = Some m"
  have g: "(if A then if B then if C then Some x else None else None else None) = None \<or>
           (if A then if B then if C then Some x else None else None else None) = Some x"
    for A B C and x :: "string \<times> string \<times> string"
    by simp
  define r1 where "r1 = drop 3 (c # cs)"
  define r3 where "r3 = drop 1 (dropWhile isLinkChar r1)"
  define r4 where "r4 = dropWhile isDisplayChar r3"
  have "matchLink (c # cs) = None \<or> matchLink (c # cs) = Some (takeWhile isLinkChar r1,
          takeWhile isDisplayChar r3, drop 2 r4)"
    unfolding matchLink_def Let_def r1_def r3_def r4_def by (rule g)
  with a have m: "snd (snd m) = drop 2 r4" by auto
  have "length (snd (snd m)) \<le> length r4" by (simp add: m)
  also have "\<dots> \<le> length r3" unfolding r4_def by (rule length_dropWhile_le)
  also have "\<dots> \<le> length (dropWhile isLinkChar r1)" by (simp add: r3_def)
  also have "\<dots> \<le> length r1" by (rule length_dropWhile_le)
  also have "\<dots> < length (c # cs)" by (simp add: r1_def)
  finally show "(snd (snd m), c # cs) \<in> measure length" by simp
next
  fix c :: char and cs :: string
  show "(cs, c # cs) \<in> measure length" by simp
qed

text \<open>
  \<^verbatim>\<open>renderNodes\<close> builds a list element with one \<^verbatim>\<open>li\<close> per node: a node with children
  becomes an open \<^verbatim>\<open>details\<close> whose \<^verbatim>\<open>summary\<close> has the given \<^verbatim>\<open>innerHTML\<close> and which holds
  the list of the children; a node without children becomes an \<^verbatim>\<open>li\<close> with the given
  \<^verbatim>\<open>innerHTML\<close>.  \<open>renderNode\<close> is the body of the loop.
\<close>

datatype Html = ListEl bool "Li list"
  and Li = LiHtml string | LiDetails string Html

fun renderNode :: "bool \<Rightarrow> Tree \<Rightarrow> Li" where
  "renderNode isOrdered (Node t cs) =
     (if length cs > 0
      then LiDetails (wikitextToHtml t) (ListEl isOrdered (map (renderNode isOrdered) cs))
      else LiHtml (wikitextToHtml t))"

definition renderNodes :: "bool \<Rightarrow> Tree list \<Rightarrow> Html" where
  "renderNodes isOrdered nodes = ListEl isOrdered (map (renderNode isOrdered) nodes)"

section \<open>Notions used to state the properties\<close>

text \<open>
  A depth sequence encodes a rooted forest without gaps when it starts at 0 and no entry
  exceeds its predecessor by more than one.
\<close>

fun gapFreeFrom :: "nat \<Rightarrow> nat list \<Rightarrow> bool" where
  "gapFreeFrom p [] = True"
| "gapFreeFrom p (d # ds) = (d \<le> Suc p \<and> gapFreeFrom d ds)"

fun rootedForestDepths :: "nat list \<Rightarrow> bool" where
  "rootedForestDepths [] = True"
| "rootedForestDepths (d # ds) = (d = 0 \<and> gapFreeFrom d ds)"

text \<open>The headings that the loop of \<^verbatim>\<open>getFilteredHeadings\<close> keeps.\<close>

definition survivors ::
  "'p allowed_fn \<Rightarrow> HeadingCache list \<Rightarrow> 'p TableOfContentsOptions \<Rightarrow> HeadingCache list" where
  "survivors allowed headings options =
     fst (filterLoop allowed options (effectiveMinLevel headings options) ([], 0) headings)"

text \<open>
  The tests a heading has to pass on its own: the pattern test, the level window and a
  non-empty label.
\<close>

definition passesTests :: "'p allowed_fn \<Rightarrow> 'p TableOfContentsOptions \<Rightarrow> bound \<Rightarrow> HeadingCache \<Rightarrow> bool" where
  "passesTests allowed options minLvl h =
     (allowed (HeadingCache.heading h) options \<and> \<not> lt_bound (level h) minLvl \<and>
      \<not> (maxLevel options > 0 \<and> level h > maxLevel options) \<and> HeadingCache.heading h \<noteq> [])"

text \<open>Loop invariant of \<^verbatim>\<open>computeNormalizedDepths\<close>.\<close>

definition depthInv :: "nat list \<times> int list \<Rightarrow> bool" where
  "depthInv s = (rootedForestDepths (fst s) \<and>
     (if fst s = [] then snd s = [] else snd s \<noteq> [] \<and> last (fst s) = length (snd s) - 1))"

text \<open>The headings and configurations of the scenarios.\<close>

definition hA :: HeadingCache where "hA = \<lparr>HeadingCache.heading = ''A'', level = 1\<rparr>"
definition hB :: HeadingCache where "hB = \<lparr>HeadingCache.heading = ''B'', level = 2\<rparr>"
definition hC :: HeadingCache where "hC = \<lparr>HeadingCache.heading = ''C'', level = 3\<rparr>"
definition hD :: HeadingCache where "hD = \<lparr>HeadingCache.heading = ''D'', level = 1\<rparr>"

definition includeAC :: "string TableOfContentsOptions" where
  "includeAC = \<lparr>title = [], style = nestedList, minLevel = 0, maxLevel = 0,
     include = Some ''^(A|C)$'', exclude = None, hideWhenEmpty = False\<rparr>"

definition excludeB :: "string TableOfContentsOptions" where
  "excludeB = \<lparr>title = [], style = nestedList, minLevel = 0, maxLevel = 0,
     include = None, exclude = Some ''B'', hideWhenEmpty = False\<rparr>"

text \<open>
  The wording of the markdown list builder: a line is \<open>depth\<close> copies of one indent unit, the
  list marker, a space and the formatted label.
\<close>

definition indentUnit :: string where
  "indentUnit = [tab]"

definition listMarker :: "bool \<Rightarrow> string" where
  "listMarker isOrdered = (if isOrdered then ''1.'' else ''-'')"

definition listLine :: "'p format_fn \<Rightarrow> 'p TableOfContentsOptions \<Rightarrow> bool \<Rightarrow> FilteredHeading \<Rightarrow> string" where
  "listLine fmt options isOrdered f =
     concat (replicate (depth f) indentUnit) @ listMarker isOrdered @ '' '' @
     fmt (HeadingCache.heading (FilteredHeading.heading f)) options"

text \<open>
  The title as it is prepended: nothing for an empty title, else the title and a newline
  (list styles) or a space (inline style).
\<close>

definition titlePrefix :: "'p TableOfContentsOptions \<Rightarrow> string" where
  "titlePrefix options =
     (if title options = [] then []
      else title options @
        (case style options of inlineFirstLevel \<Rightarrow> '' '' | nestedList \<Rightarrow> [newline]
         | nestedOrderedList \<Rightarrow> [newline]))"

definition emptyNotice :: string where
  "emptyNotice = ''_Table of contents: no headings found_''"

text \<open>The headings the inline style selects, each judged on its own.\<close>

definition inlineSelected ::
  "'p allowed_fn \<Rightarrow> HeadingCache list \<Rightarrow> 'p TableOfContentsOptions \<Rightarrow> HeadingCache list" where
  "inlineSelected allowed hs options =
     filter (\<lambda>h. Fin (level h) = effectiveMinLevel hs options \<and> HeadingCache.heading h \<noteq> [] \<and>
                 allowed (HeadingCache.heading h) options) hs"

definition hC1 :: HeadingCache where "hC1 = \<lparr>HeadingCache.heading = ''C'', level = 1\<rparr>"

definition plainOptions :: "string TableOfContentsOptions" where
  "plainOptions = \<lparr>title = [], style = inlineFirstLevel, minLevel = 0, maxLevel = 0,
     include = None, exclude = None, hideWhenEmpty = False\<rparr>"

text \<open>
  The nesting of a forest: its nodes in document order, each with its text and the number
  of nodes it lies below.
\<close>

fun nesting :: "nat \<Rightarrow> Tree \<Rightarrow> (string \<times> nat) list" where
  "nesting d (Node t cs) = (t, d) # concat (map (nesting (Suc d)) cs)"

definition forestNesting :: "Tree list \<Rightarrow> (string \<times> nat) list" where
  "forestNesting ts = concat (map (nesting 0) ts)"

definition nodeOf :: "'p format_fn \<Rightarrow> 'p TableOfContentsOptions \<Rightarrow> FilteredHeading \<Rightarrow> string \<times> nat" where
  "nodeOf fmt options item =
     (fmt (HeadingCache.heading (FilteredHeading.heading item)) options, depth item)"

text \<open>
  The forest a heap state stands for, with each node's reference and the children youngest
  first, so that the open path (the last root, its last child, and so on) is the path along
  the list heads.
\<close>

datatype RTree = RNode ref string "RTree list"

fun iroot :: "RTree \<Rightarrow> ref" where
  "iroot (RNode r t cs) = r"

text \<open>The references along the open path, outermost first.\<close>

fun spineF :: "RTree list \<Rightarrow> ref list" where
  "spineF [] = []"
| "spineF (RNode r t cs # F) = r # spineF cs"

text \<open>A new node hung below the first \<open>k\<close> nodes of the open path (a new root for \<open>k = 0\<close>).\<close>

fun attachF :: "nat \<Rightarrow> RTree \<Rightarrow> RTree list \<Rightarrow> RTree list" where
  "attachF 0 n F = n # F"
| "attachF (Suc k) n [] = [n]"
| "attachF (Suc k) n (RNode r t cs # F) = RNode r t (attachF k n cs) # F"

text \<open>Document order: each node with its reference, its text and its nesting.\<close>

fun preorder :: "nat \<Rightarrow> RTree \<Rightarrow> (ref \<times> string \<times> nat) list" where
  "preorder d (RNode r t cs) = (r, t, d) # concat (rev (map (preorder (Suc d)) cs))"

definition preF :: "nat \<Rightarrow> RTree list \<Rightarrow> (ref \<times> string \<times> nat) list" where
  "preF d F = concat (rev (map (preorder d) F))"

text \<open>The heap holds the tree: every node's object has the node's text and children.\<close>

fun agrees :: "heap \<Rightarrow> RTree \<Rightarrow> bool" where
  "agrees h (RNode r t cs) =
     (r < length h \<and> text (h ! r) = t \<and> children (h ! r) = rev (map iroot cs) \<and>
      (\<forall>c \<in> set cs. agrees h c))"

text \<open>The tree without its references, children oldest first again.\<close>

fun erase :: "RTree \<Rightarrow> Tree" where
  "erase (RNode r t cs) = Node t (rev (map erase cs))"

text \<open>
  The depths still to come fit a stack of height \<open>k\<close>: the next one is at most \<open>k\<close>, and
  after an element of depth \<open>d\<close> the stack has height \<open>d + 1\<close>.
\<close>

fun depthsOK :: "nat \<Rightarrow> nat list \<Rightarrow> bool" where
  "depthsOK k [] = True"
| "depthsOK k (d # ds) = (d \<le> k \<and> depthsOK (Suc d) ds)"

text \<open>The references of a tree, in document order.\<close>

fun ids :: "RTree \<Rightarrow> ref list" where
  "ids (RNode r t cs) = r # concat (rev (map ids cs))"

definition idsF :: "RTree list \<Rightarrow> ref list" where
  "idsF F = concat (rev (map ids F))"

text \<open>
  Loop invariant of \<^verbatim>\<open>buildTree\<close>: the heap holds the forest \<open>F\<close>, \<^verbatim>\<open>roots\<close> are its roots,
  the references in document order are the allocation order, and the stack is the open
  path with the depths 0, 1, 2 and so on from the bottom.
\<close>

definition treeInv :: "heap \<times> ref list \<times> (ref \<times> nat) list \<Rightarrow> RTree list \<Rightarrow> bool" where
  "treeInv st F =
     (case st of (h, roots, stack) \<Rightarrow>
        roots = rev (map iroot F) \<and> (\<forall>T \<in> set F. agrees h T) \<and> idsF F = [0..<length h] \<and>
        map fst (rev stack) = spineF F \<and> map snd (rev stack) = [0..<length stack])"

text \<open>
  The escaping in the spec's words: each of the four characters becomes its entity, every
  other character stays.
\<close>

definition escapeChar :: "char \<Rightarrow> string" where
  "escapeChar c =
     (if c = CHR ''&'' then ''&amp;''
      else if c = CHR ''<'' then ''&lt;''
      else if c = CHR ''>'' then ''&gt;''
      else if c = dquote then ''&quot;''
      else [c])"

definition linkNotation :: "string \<Rightarrow> string \<Rightarrow> string" where
  "linkNotation target display = ''[[#'' @ target @ ''|'' @ display @ '']]''"

definition anchorElement :: "string \<Rightarrow> string \<Rightarrow> string" where
  "anchorElement href content =
     ''<a class='' @ [dquote] @ ''internal-link'' @ [dquote] @ '' data-href='' @ [dquote] @ ''#'' @
     href @ [dquote] @ ''>'' @ content @ ''</a>''"

text \<open>
  No match of the link pattern starts inside \<open>pre\<close> when \<open>pre\<close> is followed by \<open>rest\<close>: the
  scan, started on \<open>pre @ rest\<close>, arrives at \<open>rest\<close> having replaced nothing.
\<close>

fun noMatchWithin :: "string \<Rightarrow> string \<Rightarrow> bool" where
  "noMatchWithin [] rest = True"
| "noMatchWithin (c # cs) rest = (matchLink (c # cs @ rest) = None \<and> noMatchWithin cs rest)"

definition hE :: HeadingCache where "hE = \<lparr>HeadingCache.heading = ''E'', level = 2\<rparr>"

definition sampleFlat :: "FilteredHeading list" where
  "sampleFlat =
     [\<lparr>FilteredHeading.heading = hA, depth = 0\<rparr>, \<lparr>FilteredHeading.heading = hB, depth = 1\<rparr>,
      \<lparr>FilteredHeading.heading = hC, depth = 2\<rparr>, \<lparr>FilteredHeading.heading = hE, depth = 1\<rparr>]"

text \<open>
  The per-index tests of the heading filter.  The heading at index \<open>i\<close> lies in a cascading
  exclusion when an exclude pattern is set and some earlier heading \<open>j\<close> fails the pattern
  test, has a positive level, and every heading after \<open>j\<close> up to and including \<open>i\<close> is
  strictly deeper than \<open>j\<close>.  The heading at index \<open>i\<close> is kept when it lies in no
  cascading exclusion and passes the tests on its own.
\<close>

definition cascadedAt ::
  "'p allowed_fn \<Rightarrow> 'p TableOfContentsOptions \<Rightarrow> HeadingCache list \<Rightarrow> nat \<Rightarrow> bool" where
  "cascadedAt allowed options hs i =
     (exclude options \<noteq> None \<and>
      (\<exists>j \<in> set [0..<i].
         \<not> allowed (HeadingCache.heading (hs ! j)) options \<and> 0 < level (hs ! j) \<and>
         (\<forall>k \<in> set [Suc j..<Suc i]. level (hs ! j) < level (hs ! k))))"

definition keptAt ::
  "'p allowed_fn \<Rightarrow> 'p TableOfContentsOptions \<Rightarrow> bound \<Rightarrow> HeadingCache list \<Rightarrow> nat \<Rightarrow> bool" where
  "keptAt allowed options minLvl hs i =
     (\<not> cascadedAt allowed options hs i \<and> passesTests allowed options minLvl (hs ! i))"

text \<open>
  The same condition seen from the loop: after the headings \<open>hs\<close>, a next heading of level
  \<open>lx\<close> would be skipped by the cascade.
\<close>

definition cascadeSource ::
  "'p allowed_fn \<Rightarrow> 'p TableOfContentsOptions \<Rightarrow> HeadingCache list \<Rightarrow> int \<Rightarrow> nat \<Rightarrow> bool" where
  "cascadeSource allowed options hs lx j =
     (\<not> allowed (HeadingCache.heading (hs ! j)) options \<and> 0 < level (hs ! j) \<and>
      (\<forall>k. j < k \<and> k < length hs \<longrightarrow> level (hs ! j) < level (hs ! k)) \<and> level (hs ! j) < lx)"

definition cascades ::
  "'p allowed_fn \<Rightarrow> 'p TableOfContentsOptions \<Rightarrow> HeadingCache list \<Rightarrow> int \<Rightarrow> bool" where
  "cascades allowed options hs lx =
     (exclude options \<noteq> None \<and>
      (\<exists>j < length hs.
         \<not> allowed (HeadingCache.heading (hs ! j)) options \<and> 0 < level (hs ! j) \<and>
         (\<forall>k. j < k \<and> k < length hs \<longrightarrow> level (hs ! j) < level (hs ! k)) \<and>
         level (hs ! j) < lx))"

definition hBlank :: HeadingCache where "hBlank = \<lparr>HeadingCache.heading = '' '', level = 1\<rparr>"

definition hEmpty :: HeadingCache where "hEmpty = \<lparr>HeadingCache.heading = [], level = 1\<rparr>"

definition listOptions :: "string TableOfContentsOptions" where
  "listOptions = \<lparr>title = [], style = nestedList, minLevel = 0, maxLevel = 0,
     include = None, exclude = None, hideWhenEmpty = False\<rparr>"

section \<open>Depth normalization\<close>

lemma gapFreeFrom_snoc:
  "gapFreeFrom p (ds @ [d]) = (gapFreeFrom p ds \<and> d \<le> Suc (last (p # ds)))"
  by (induction ds arbitrary: p) auto

lemma rootedForestDepths_snoc:
  "rootedForestDepths (ds @ [d]) =
     (rootedForestDepths ds \<and> (if ds = [] then d = 0 else d \<le> Suc (last ds)))"
  by (cases ds) (auto simp: gapFreeFrom_snoc)

lemma length_popLevels: "length (popLevels st l) \<le> length st"
  by (induction st) auto

lemma depthStep_inv: "depthInv s \<Longrightarrow> depthInv (depthStep s h)"
proof -
  assume inv: "depthInv s"
  obtain ds st where s: "s = (ds, st)" by (cases s)
  have le: "length (popLevels st (level h)) \<le> length st" by (rule length_popLevels)
  show ?thesis
  proof (cases "ds = []")
    case True
    with inv s have "st = []" by (simp add: depthInv_def)
    with True s show ?thesis by (simp add: depthInv_def depthStep_def)
  next
    case False
    with inv s have "st \<noteq> []" and "last ds = length st - 1" and "rootedForestDepths ds"
      by (simp_all add: depthInv_def)
    with False s le show ?thesis
      by (simp add: depthInv_def depthStep_def rootedForestDepths_snoc)
  qed
qed

lemma foldl_depthStep_inv: "depthInv s \<Longrightarrow> depthInv (foldl depthStep s hs)"
  by (induction hs arbitrary: s) (simp_all add: depthStep_inv)

lemma rootedForestDepths_computeNormalizedDepths:
  "rootedForestDepths (computeNormalizedDepths hs)"
  using foldl_depthStep_inv [of "([], [])" hs]
  by (simp add: computeNormalizedDepths_def depthInv_def)

lemma length_foldl_depthStep:
  "length (fst (foldl depthStep s hs)) = length (fst s) + length hs"
  by (induction hs arbitrary: s) (simp_all add: depthStep_def)

lemma length_computeNormalizedDepths: "length (computeNormalizedDepths hs) = length hs"
  by (simp add: computeNormalizedDepths_def length_foldl_depthStep)

lemma zip_index_map:
  "length ds = length fs \<Longrightarrow>
   map (\<lambda>(h, i). \<lparr>FilteredHeading.heading = h, depth = ds ! i\<rparr>) (zip fs [0..<length fs]) =
   map (\<lambda>(h, d). \<lparr>FilteredHeading.heading = h, depth = d\<rparr>) (zip fs ds)"
  by (rule nth_equalityI) simp_all

lemma getFilteredHeadings_zip:
  "getFilteredHeadings allowed hs options =
   map (\<lambda>(h, d). \<lparr>FilteredHeading.heading = h, depth = d\<rparr>)
     (zip (survivors allowed hs options) (computeNormalizedDepths (survivors allowed hs options)))"
  by (simp add: getFilteredHeadings_def survivors_def Let_def zip_index_map
        length_computeNormalizedDepths)

lemma depths_getFilteredHeadings:
  "map depth (getFilteredHeadings allowed hs options) =
   computeNormalizedDepths (survivors allowed hs options)"
  by (simp add: getFilteredHeadings_zip length_computeNormalizedDepths o_def split_def)

lemma headings_getFilteredHeadings:
  "map FilteredHeading.heading (getFilteredHeadings allowed hs options) =
   survivors allowed hs options"
  by (simp add: getFilteredHeadings_zip length_computeNormalizedDepths o_def split_def)

lemma rootedForestDepths_index:
  "rootedForestDepths ds \<longleftrightarrow>
     (ds \<noteq> [] \<longrightarrow> hd ds = 0) \<and> (\<forall>i. Suc i < length ds \<longrightarrow> ds ! Suc i \<le> Suc (ds ! i))"
proof -
  have g: "gapFreeFrom p xs \<longleftrightarrow> (\<forall>i. i < length xs \<longrightarrow> xs ! i \<le> Suc ((p # xs) ! i))" for p xs
  proof (induction xs arbitrary: p)
    case Nil
    show ?case by simp
  next
    case (Cons x xs)
    show ?case
      by (auto simp: Cons.IH nth_Cons split: nat.splits)
  qed
  show ?thesis
    by (cases ds) (auto simp: g)
qed

text \<open>
  Claim C1.  Whatever the heading list and the configuration, the depths that
  \<^verbatim>\<open>getFilteredHeadings\<close> returns start at 0 and never exceed the preceding depth by more
  than one; surviving headings of levels 1, 3, 3 get the depths 0, 1, 1.
\<close>

theorem depths_gap_free:
  "rootedForestDepths (map depth (getFilteredHeadings allowed hs options)) \<and>
   computeNormalizedDepths
     [\<lparr>HeadingCache.heading = a, level = 1\<rparr>, \<lparr>HeadingCache.heading = b, level = 3\<rparr>,
      \<lparr>HeadingCache.heading = c, level = 3\<rparr>] = [0, 1, 1]"
proof
  show "rootedForestDepths (map depth (getFilteredHeadings allowed hs options))"
    by (simp only: depths_getFilteredHeadings rootedForestDepths_computeNormalizedDepths)
  show "computeNormalizedDepths
     [\<lparr>HeadingCache.heading = a, level = 1\<rparr>, \<lparr>HeadingCache.heading = b, level = 3\<rparr>,
      \<lparr>HeadingCache.heading = c, level = 3\<rparr>] = [0, 1, 1]"
    by (simp add: computeNormalizedDepths_def depthStep_def)
qed

section \<open>Order preservation\<close>

lemma fst_filterStep:
  "fst (filterStep allowed options m (fs, u) h) = fs \<or>
   fst (filterStep allowed options m (fs, u) h) = fs @ [h]"
  by (simp add: filterStep_def Let_def)

lemma filterLoop_subseq:
  "\<exists>ys. fst (filterLoop allowed options m (fs, u) hs) = fs @ ys \<and> subseq ys hs"
proof (induction hs arbitrary: fs u)
  case Nil
  show ?case by (simp add: filterLoop_def)
next
  case (Cons h hs)
  obtain fs' u' where st: "filterStep allowed options m (fs, u) h = (fs', u')"
    by (cases "filterStep allowed options m (fs, u) h")
  from Cons.IH [of fs' u'] obtain ys
    where ys: "fst (filterLoop allowed options m (fs', u') hs) = fs' @ ys" "subseq ys hs"
    by blast
  from fst_filterStep [of allowed options m fs u h] st
  consider "fs' = fs" | "fs' = fs @ [h]" by auto
  then show ?case
  proof cases
    case 1
    with ys st have "fst (filterLoop allowed options m (fs, u) (h # hs)) = fs @ ys"
      by (simp add: filterLoop_def)
    moreover from ys have "subseq ys (h # hs)" by (simp add: list_emb_Cons)
    ultimately show ?thesis by blast
  next
    case 2
    with ys st have "fst (filterLoop allowed options m (fs, u) (h # hs)) = fs @ (h # ys)"
      by (simp add: filterLoop_def)
    moreover from ys have "subseq (h # ys) (h # hs)" by simp
    ultimately show ?thesis by blast
  qed
qed

lemma subseq_survivors: "subseq (survivors allowed hs options) hs"
  using filterLoop_subseq [of allowed options "effectiveMinLevel hs options" "[]" 0 hs]
  by (auto simp: survivors_def)

lemma cascadedAt_next:
  "cascadedAt allowed options (hs @ x # rest) (length hs) = cascades allowed options hs (level x)"
proof -
  have "(\<forall>k \<in> set [Suc j..<Suc (length hs)]. level (hs ! j) < level ((hs @ x # rest) ! k)) =
        ((\<forall>k. j < k \<and> k < length hs \<longrightarrow> level (hs ! j) < level (hs ! k)) \<and>
         level (hs ! j) < level x)" if "j < length hs" for j
  proof
    assume a: "\<forall>k \<in> set [Suc j..<Suc (length hs)]. level (hs ! j) < level ((hs @ x # rest) ! k)"
    have "level (hs ! j) < level (hs ! k)" if "j < k" "k < length hs" for k
      using a [rule_format, of k] that by (simp add: nth_append)
    moreover have "level (hs ! j) < level x"
      using a [rule_format, of "length hs"] \<open>j < length hs\<close> by simp
    ultimately show "(\<forall>k. j < k \<and> k < length hs \<longrightarrow> level (hs ! j) < level (hs ! k)) \<and>
         level (hs ! j) < level x" by blast
  next
    assume b: "(\<forall>k. j < k \<and> k < length hs \<longrightarrow> level (hs ! j) < level (hs ! k)) \<and>
         level (hs ! j) < level x"
    show "\<forall>k \<in> set [Suc j..<Suc (length hs)]. level (hs ! j) < level ((hs @ x # rest) ! k)"
    proof
      fix k assume "k \<in> set [Suc j..<Suc (length hs)]"
      then have "j < k" "k < length hs \<or> k = length hs" by auto
      with b show "level (hs ! j) < level ((hs @ x # rest) ! k)"
        by (auto simp: nth_append)
    qed
  qed
  then show ?thesis
    unfolding cascadedAt_def cascades_def
    by (auto simp: nth_append)
qed

lemma cascadedAt_prefix:
  "i < length hs \<Longrightarrow> cascadedAt allowed options (hs @ ys) i = cascadedAt allowed options hs i"
  unfolding cascadedAt_def by (auto simp: nth_append)

lemma keptAt_prefix:
  "i < length hs \<Longrightarrow> keptAt allowed options m (hs @ ys) i = keptAt allowed options m hs i"
  by (simp add: keptAt_def cascadedAt_prefix nth_append)

lemma keptAt_next:
  "keptAt allowed options m (hs @ x # rest) (length hs) =
     (\<not> cascades allowed options hs (level x) \<and> passesTests allowed options m x)"
  by (simp add: keptAt_def cascadedAt_next)

lemma cascades_Nil: "cascades allowed options [] lx = False"
  by (simp add: cascades_def)

lemma cascades_source:
  "cascades allowed options hs lx =
     (exclude options \<noteq> None \<and> (\<exists>j < length hs. cascadeSource allowed options hs lx j))"
  by (simp add: cascades_def cascadeSource_def)

lemma cascadeSource_old:
  assumes j: "j < length hs"
  shows "cascadeSource allowed options (hs @ [x]) ly j =
         cascadeSource allowed options hs (min (level x) ly) j"
proof -
  have nj: "(hs @ [x]) ! j = hs ! j" using j by (simp add: nth_append)
  have "(\<forall>k. j < k \<and> k < Suc (length hs) \<longrightarrow> level (hs ! j) < level ((hs @ [x]) ! k)) =
        ((\<forall>k. j < k \<and> k < length hs \<longrightarrow> level (hs ! j) < level (hs ! k)) \<and>
         level (hs ! j) < level x)"
  proof
    assume a: "\<forall>k. j < k \<and> k < Suc (length hs) \<longrightarrow> level (hs ! j) < level ((hs @ [x]) ! k)"
    have "level (hs ! j) < level (hs ! k)" if "j < k" "k < length hs" for k
      using a [rule_format, of k] that by (simp add: nth_append)
    moreover have "level (hs ! j) < level x"
      using a [rule_format, of "length hs"] j by simp
    ultimately show "(\<forall>k. j < k \<and> k < length hs \<longrightarrow> level (hs ! j) < level (hs ! k)) \<and>
        level (hs ! j) < level x" by blast
  next
    assume b: "(\<forall>k. j < k \<and> k < length hs \<longrightarrow> level (hs ! j) < level (hs ! k)) \<and>
        level (hs ! j) < level x"
    show "\<forall>k. j < k \<and> k < Suc (length hs) \<longrightarrow> level (hs ! j) < level ((hs @ [x]) ! k)"
    proof (intro allI impI)
      fix k assume k: "j < k \<and> k < Suc (length hs)"
      show "level (hs ! j) < level ((hs @ [x]) ! k)"
      proof (cases "k < length hs")
        case True
        with k b show ?thesis by (simp add: nth_append)
      next
        case False
        with k have "k = length hs" by simp
        with b show ?thesis by simp
      qed
    qed
  qed
  then show ?thesis
    unfolding cascadeSource_def nj length_append_singleton by (simp only: min_less_iff_conj) blast
qed

lemma cascadeSource_new:
  "cascadeSource allowed options (hs @ [x]) ly (length hs) =
     (\<not> allowed (HeadingCache.heading x) options \<and> 0 < level x \<and> level x < ly)"
  by (simp add: cascadeSource_def)

lemma ex_less_Suc: "(\<exists>j < Suc n. P j) = ((\<exists>j < n. P j) \<or> P n)"
  by (auto simp: less_Suc_eq)

lemma cascades_snoc:
  "cascades allowed options (hs @ [x]) ly =
     (cascades allowed options hs (min (level x) ly) \<or>
      (exclude options \<noteq> None \<and> \<not> allowed (HeadingCache.heading x) options \<and> 0 < level x \<and>
       level x < ly))"
proof -
  have "(\<exists>j < length hs. cascadeSource allowed options (hs @ [x]) ly j) =
        (\<exists>j < length hs. cascadeSource allowed options hs (min (level x) ly) j)"
    using cascadeSource_old [of _ hs allowed options x ly] by blast
  then have "(\<exists>j < length (hs @ [x]). cascadeSource allowed options (hs @ [x]) ly j) =
        ((\<exists>j < length hs. cascadeSource allowed options hs (min (level x) ly) j) \<or>
         (\<not> allowed (HeadingCache.heading x) options \<and> 0 < level x \<and> level x < ly))"
    by (simp only: length_append_singleton ex_less_Suc cascadeSource_new)
  then show ?thesis
    unfolding cascades_source by blast
qed

lemma filterStep_fst:
  "fst (filterStep allowed options m (fs, u) x) =
     (if \<not> (0 < u \<and> u < level x) \<and> passesTests allowed options m x then fs @ [x] else fs)"
  by (simp add: filterStep_def passesTests_def Let_def)

lemma filterStep_snd:
  assumes inv: "\<forall>lx. (0 < u \<and> u < lx) = cascades allowed options hs lx"
  shows "(0 < snd (filterStep allowed options m (fs, u) x) \<and>
          snd (filterStep allowed options m (fs, u) x) < ly) =
         cascades allowed options (hs @ [x]) ly"
proof (cases "0 < u \<and> u < level x")
  case True
  then have "snd (filterStep allowed options m (fs, u) x) = u"
    by (simp add: filterStep_def)
  moreover have "cascades allowed options hs (min (level x) ly) = (0 < u \<and> u < ly)"
    using inv [rule_format, of "min (level x) ly", symmetric] True by auto
  ultimately show ?thesis
    using True by (auto simp: cascades_snoc)
next
  case False
  then have old: "\<not> cascades allowed options hs (min (level x) ly)"
    using inv [rule_format, of "min (level x) ly", symmetric] by auto
  from False have u1: "(if level x \<le> u then 0 else u) \<le> 0" by auto
  have none: "\<not> cascades allowed options hs lx" if "exclude options = None" for lx
    using that by (simp add: cascades_def)
  show ?thesis
  proof (cases "allowed (HeadingCache.heading x) options")
    case True
    with False u1 have "snd (filterStep allowed options m (fs, u) x) \<le> 0"
      by (auto simp: filterStep_def Let_def)
    with True old show ?thesis by (auto simp: cascades_snoc)
  next
    case na: False
    show ?thesis
    proof (cases "exclude options = None")
      case True
      with False na u1 have "snd (filterStep allowed options m (fs, u) x) \<le> 0"
        by (auto simp: filterStep_def Let_def)
      with True old show ?thesis by (auto simp: cascades_snoc)
    next
      case ex: False
      with False na have "snd (filterStep allowed options m (fs, u) x) = level x"
        by (auto simp: filterStep_def Let_def)
      with ex na old show ?thesis by (auto simp: cascades_snoc)
    qed
  qed
qed

lemma filterLoop_kept:
  "fst (filterLoop allowed options m ([], 0) hs) =
     map ((!) hs) (filter (keptAt allowed options m hs) [0..<length hs]) \<and>
   (\<forall>lx. (0 < snd (filterLoop allowed options m ([], 0) hs) \<and>
          snd (filterLoop allowed options m ([], 0) hs) < lx) = cascades allowed options hs lx)"
proof (induction hs rule: rev_induct)
  case Nil
  show ?case by (simp add: filterLoop_def cascades_Nil)
next
  case (snoc x hs)
  obtain fs u where st: "filterLoop allowed options m ([], 0) hs = (fs, u)"
    by (cases "filterLoop allowed options m ([], 0) hs")
  with snoc.IH have fs: "fs = map ((!) hs) (filter (keptAt allowed options m hs) [0..<length hs])"
    and inv: "\<forall>lx. (0 < u \<and> u < lx) = cascades allowed options hs lx"
    by simp_all
  have step: "filterLoop allowed options m ([], 0) (hs @ [x]) =
              filterStep allowed options m (fs, u) x"
    by (simp add: filterLoop_def st [unfolded filterLoop_def])
  have old: "map ((!) (hs @ [x])) (filter (keptAt allowed options m (hs @ [x])) [0..<length hs]) = fs"
  proof -
    have f: "filter (keptAt allowed options m (hs @ [x])) [0..<length hs] =
          filter (keptAt allowed options m hs) [0..<length hs]"
      by (rule filter_cong [OF refl]) (simp add: keptAt_prefix)
    have "map ((!) (hs @ [x])) (filter (keptAt allowed options m hs) [0..<length hs]) =
          map ((!) hs) (filter (keptAt allowed options m hs) [0..<length hs])"
      by (rule map_cong [OF refl]) (simp add: nth_append)
    then show ?thesis unfolding f fs .
  qed
  have k: "keptAt allowed options m (hs @ [x]) (length hs) =
           (\<not> (0 < u \<and> u < level x) \<and> passesTests allowed options m x)"
    using keptAt_next [of allowed options m hs x "[]"] inv by simp
  have "fst (filterStep allowed options m (fs, u) x) =
        map ((!) (hs @ [x])) (filter (keptAt allowed options m (hs @ [x])) [0..<length (hs @ [x])])"
    unfolding filterStep_fst using old k by simp
  moreover have "\<forall>lx. (0 < snd (filterStep allowed options m (fs, u) x) \<and>
          snd (filterStep allowed options m (fs, u) x) < lx) =
          cascades allowed options (hs @ [x]) lx"
    using filterStep_snd [OF inv] by blast
  ultimately show ?case unfolding step by blast
qed

lemma nths_filter_indices: "map ((!) xs) (filter P [0..<length xs]) = nths xs {i. P i}"
proof (induction xs arbitrary: P rule: rev_induct)
  case Nil
  show ?case by simp
next
  case (snoc x xs)
  have "map ((!) (xs @ [x])) (filter P [0..<length xs]) = map ((!) xs) (filter P [0..<length xs])"
    by (rule map_cong [OF refl]) (simp add: nth_append)
  then show ?case by (simp add: nths_append snoc.IH nths_Cons)
qed

text \<open>
  Claim C4.  The headings of the result of \<^verbatim>\<open>getFilteredHeadings\<close> are exactly the input
  headings at the indices that pass the filter tests, in input order: the heading at an index
  is kept when it lies in no cascading exclusion, the pattern test accepts it, its level is
  within the level window and its label has at least one character.  In particular the
  result is a subsequence of the input.  The label test is on the length of the label: a
  label that holds only a blank is kept.
\<close>

theorem filter_never_reorders:
  "map FilteredHeading.heading (getFilteredHeadings allowed hs options) =
     map ((!) hs)
       (filter (keptAt allowed options (effectiveMinLevel hs options) hs) [0..<length hs]) \<and>
   map FilteredHeading.heading (getFilteredHeadings allowed hs options) =
     nths hs {i. keptAt allowed options (effectiveMinLevel hs options) hs i} \<and>
   subseq (map FilteredHeading.heading (getFilteredHeadings allowed hs options)) hs \<and>
   map FilteredHeading.heading (getFilteredHeadings (\<lambda>_ _. True) [hBlank] listOptions) = [hBlank]"
proof (intro conjI)
  show eq: "map FilteredHeading.heading (getFilteredHeadings allowed hs options) =
     map ((!) hs)
       (filter (keptAt allowed options (effectiveMinLevel hs options) hs) [0..<length hs])"
    using filterLoop_kept [of allowed options "effectiveMinLevel hs options" hs]
    by (simp only: headings_getFilteredHeadings survivors_def)
  show "map FilteredHeading.heading (getFilteredHeadings allowed hs options) =
     nths hs {i. keptAt allowed options (effectiveMinLevel hs options) hs i}"
    unfolding eq by (rule nths_filter_indices)
  show "subseq (map FilteredHeading.heading (getFilteredHeadings allowed hs options)) hs"
    by (simp only: headings_getFilteredHeadings subseq_survivors)
  show "map FilteredHeading.heading (getFilteredHeadings (\<lambda>_ _. True) [hBlank] listOptions) =
        [hBlank]"
    by (simp add: headings_getFilteredHeadings survivors_def filterLoop_def filterStep_def
          effectiveMinLevel_def hBlank_def listOptions_def)
qed

theorem filter_never_reorders_witness:
  "filter (keptAt (\<lambda>s _. s \<noteq> ''B'') excludeB (effectiveMinLevel [hA, hB, hC, hD] excludeB)
       [hA, hB, hC, hD]) [0..<length [hA, hB, hC, hD]] = [0, 3] \<and>
   map FilteredHeading.heading
     (getFilteredHeadings (\<lambda>s _. s \<noteq> ''B'') [hA, hB, hC, hD] excludeB) = [hA, hD] \<and>
   cascadedAt (\<lambda>s _. s \<noteq> ''B'') excludeB [hA, hB, hC, hD] 2 \<and>
   \<not> cascadedAt (\<lambda>s _. s \<noteq> ''B'') excludeB [hA, hB, hC, hD] 3"
proof -
  have k: "filter (keptAt (\<lambda>s _. s \<noteq> ''B'') excludeB (effectiveMinLevel [hA, hB, hC, hD] excludeB)
       [hA, hB, hC, hD]) [0..<length [hA, hB, hC, hD]] = [0, 3]"
    by (simp add: keptAt_def cascadedAt_def passesTests_def effectiveMinLevel_def excludeB_def
          hA_def hB_def hC_def hD_def upt_rec numeral_nat)
  have c: "cascadedAt (\<lambda>s _. s \<noteq> ''B'') excludeB [hA, hB, hC, hD] 2 \<and>
           \<not> cascadedAt (\<lambda>s _. s \<noteq> ''B'') excludeB [hA, hB, hC, hD] 3"
    by (simp add: cascadedAt_def excludeB_def hA_def hB_def hC_def hD_def upt_rec numeral_nat)
  show ?thesis
    using filter_never_reorders [of "\<lambda>s _. s \<noteq> ''B''" "[hA, hB, hC, hD]" excludeB] c
    by (simp only: k) simp
qed

section \<open>Include mode\<close>

lemma filterStep_include:
  "exclude options = None \<Longrightarrow>
   filterStep allowed options m (fs, 0) h =
     (if passesTests allowed options m h then fs @ [h] else fs, 0)"
  by (simp add: filterStep_def passesTests_def Let_def)

lemma filterLoop_include:
  "exclude options = None \<Longrightarrow>
   filterLoop allowed options m (fs, 0) hs = (fs @ filter (passesTests allowed options m) hs, 0)"
  by (induction hs arbitrary: fs) (simp_all add: filterLoop_def filterStep_include)

lemma survivors_include:
  "exclude options = None \<Longrightarrow>
   survivors allowed hs options =
     filter (passesTests allowed options (effectiveMinLevel hs options)) hs"
  by (simp add: survivors_def filterLoop_include)

text \<open>
  Claim C2.  With no exclude pattern set, \<^verbatim>\<open>unallowedLevel\<close> stays 0 and the result is the
  input filtered heading by heading; on A(1), B(2), C(3), D(1) with a test that only A and C
  pass, the result is A at depth 0 and C at depth 1.
\<close>

theorem include_mode_independent:
  assumes "exclude options = None"
  shows "map FilteredHeading.heading (getFilteredHeadings allowed hs options) =
           filter (passesTests allowed options (effectiveMinLevel hs options)) hs \<and>
         (allowed ''A'' options \<and> \<not> allowed ''B'' options \<and> allowed ''C'' options \<and>
          \<not> allowed ''D'' options \<and> minLevel options \<le> 1 \<and>
          (maxLevel options \<le> 0 \<or> 3 \<le> maxLevel options) \<longrightarrow>
          getFilteredHeadings allowed [hA, hB, hC, hD] options =
            [\<lparr>FilteredHeading.heading = hA, depth = 0\<rparr>,
             \<lparr>FilteredHeading.heading = hC, depth = 1\<rparr>])"
proof (intro conjI impI)
  show "map FilteredHeading.heading (getFilteredHeadings allowed hs options) =
           filter (passesTests allowed options (effectiveMinLevel hs options)) hs"
    using assms by (simp only: headings_getFilteredHeadings survivors_include)
next
  assume ex: "allowed ''A'' options \<and> \<not> allowed ''B'' options \<and> allowed ''C'' options \<and>
          \<not> allowed ''D'' options \<and> minLevel options \<le> 1 \<and>
          (maxLevel options \<le> 0 \<or> 3 \<le> maxLevel options)"
  let ?hs = "[hA, hB, hC, hD]"
  let ?m = "effectiveMinLevel ?hs options"
  have m: "?m = Fin 1"
    using ex by (auto simp: effectiveMinLevel_def hA_def hB_def hC_def hD_def)
  have "survivors allowed ?hs options = filter (passesTests allowed options (Fin 1)) ?hs"
    using assms by (simp only: survivors_include m)
  also have "\<dots> = [hA, hC]"
    using ex by (auto simp: passesTests_def hA_def hB_def hC_def hD_def)
  finally have "survivors allowed ?hs options = [hA, hC]" .
  then show "getFilteredHeadings allowed ?hs options =
            [\<lparr>FilteredHeading.heading = hA, depth = 0\<rparr>,
             \<lparr>FilteredHeading.heading = hC, depth = 1\<rparr>]"
    by (simp add: getFilteredHeadings_zip computeNormalizedDepths_def depthStep_def
          hA_def hC_def)
qed

theorem include_mode_independent_witness:
  "exclude includeAC = None \<and>
   getFilteredHeadings (\<lambda>s _. s = ''A'' \<or> s = ''C'') [hA, hB, hC, hD] includeAC =
     [\<lparr>FilteredHeading.heading = hA, depth = 0\<rparr>, \<lparr>FilteredHeading.heading = hC, depth = 1\<rparr>]"
  using include_mode_independent [of includeAC "\<lambda>s _. s = ''A'' \<or> s = ''C''" "[hA, hB, hC, hD]"]
  by (simp add: includeAC_def)

section \<open>Exclude mode\<close>

lemma filterStep_fail_exclude:
  "exclude options \<noteq> None \<Longrightarrow> \<not> allowed (HeadingCache.heading h) options \<Longrightarrow>
   \<not> (0 < u \<and> u < level h) \<Longrightarrow>
   filterStep allowed options m (fs, u) h = (fs, level h)"
  by (simp add: filterStep_def Let_def)

lemma filterLoop_cascade:
  "0 < l \<Longrightarrow> \<forall>x \<in> set mid. l < level x \<Longrightarrow>
   filterLoop allowed options m (fs, l) mid = (fs, l)"
  by (induction mid) (simp_all add: filterLoop_def filterStep_def)

lemma filterLoop_append:
  "filterLoop allowed options m s (xs @ ys) =
   filterLoop allowed options m (filterLoop allowed options m s xs) ys"
  by (simp add: filterLoop_def)

lemma filterLoop_Cons:
  "filterLoop allowed options m s (x # xs) =
   filterLoop allowed options m (filterStep allowed options m s x) xs"
  by (simp add: filterLoop_def)

lemma filterStep_scope_end:
  "level r \<le> l \<Longrightarrow>
   filterStep allowed options m (fs, l) r = filterStep allowed options m (fs, 0) r"
  by (simp add: filterStep_def Let_def)

lemma filterLoop_skip_subtree:
  assumes "exclude options \<noteq> None"
    and "filterLoop allowed options m s0 pre = (fs, u)"
    and "\<not> (0 < u \<and> u < level h)"
    and "\<not> allowed (HeadingCache.heading h) options"
    and "0 < level h"
    and "\<forall>x \<in> set mid. level h < level x"
  shows "filterLoop allowed options m s0 (pre @ h # mid @ rest) =
         filterLoop allowed options m (fs, level h) rest"
proof -
  have "filterLoop allowed options m s0 (pre @ h # mid @ rest) =
        filterLoop allowed options m (filterLoop allowed options m
          (filterStep allowed options m (fs, u) h) mid) rest"
    using assms(2) by (simp only: filterLoop_append filterLoop_Cons)
  also have "filterStep allowed options m (fs, u) h = (fs, level h)"
    using assms(1,4,3) by (rule filterStep_fail_exclude)
  also have "filterLoop allowed options m (fs, level h) mid = (fs, level h)"
    using assms(5,6) by (rule filterLoop_cascade)
  finally show ?thesis .
qed

text \<open>
  Claim C3.  With an exclude pattern set: a heading \<open>h\<close> (of level at least 1, as every
  heading of the data model) that reaches the pattern test and fails it is dropped together
  with the run \<open>mid\<close> of following headings of strictly greater level, and the loop goes on
  with \<^verbatim>\<open>unallowedLevel\<close> equal to the level of \<open>h\<close>; a heading whose level is at most
  \<^verbatim>\<open>unallowedLevel\<close> is then handled as if no exclusion were active.  On A(1), B(2), C(3),
  D(1) with a test that B fails and A and D pass, the result is A and D, both at depth 0.
\<close>

theorem exclude_mode_cascade:
  assumes "exclude options \<noteq> None"
  shows "(filterLoop allowed options (effectiveMinLevel (pre @ h # mid @ rest) options) ([], 0) pre
            = (fs, u) \<and>
          \<not> (0 < u \<and> u < level h) \<and> \<not> allowed (HeadingCache.heading h) options \<and>
          0 < level h \<and> (\<forall>x \<in> set mid. level h < level x) \<longrightarrow>
          map FilteredHeading.heading (getFilteredHeadings allowed (pre @ h # mid @ rest) options) =
            fst (filterLoop allowed options (effectiveMinLevel (pre @ h # mid @ rest) options)
                   (fs, level h) rest)) \<and>
         (level r \<le> l \<longrightarrow>
          filterStep allowed options m (fs, l) r = filterStep allowed options m (fs, 0) r) \<and>
         (allowed ''A'' options \<and> \<not> allowed ''B'' options \<and> allowed ''D'' options \<and>
          minLevel options \<le> 1 \<and> (maxLevel options \<le> 0 \<or> 1 \<le> maxLevel options) \<longrightarrow>
          getFilteredHeadings allowed [hA, hB, hC, hD] options =
            [\<lparr>FilteredHeading.heading = hA, depth = 0\<rparr>,
             \<lparr>FilteredHeading.heading = hD, depth = 0\<rparr>])"
proof (intro conjI impI)
  let ?hs = "pre @ h # mid @ rest"
  assume a: "filterLoop allowed options (effectiveMinLevel ?hs options) ([], 0) pre = (fs, u) \<and>
          \<not> (0 < u \<and> u < level h) \<and> \<not> allowed (HeadingCache.heading h) options \<and>
          0 < level h \<and> (\<forall>x \<in> set mid. level h < level x)"
  have "filterLoop allowed options (effectiveMinLevel ?hs options) ([], 0) ?hs =
        filterLoop allowed options (effectiveMinLevel ?hs options) (fs, level h) rest"
  proof (rule filterLoop_skip_subtree [OF assms])
    show "filterLoop allowed options (effectiveMinLevel ?hs options) ([], 0) pre = (fs, u)"
      using a by blast
    show "\<not> (0 < u \<and> u < level h)" using a by blast
    show "\<not> allowed (HeadingCache.heading h) options" using a by blast
    show "0 < level h" using a by blast
    show "\<forall>x \<in> set mid. level h < level x" using a by blast
  qed
  then show "map FilteredHeading.heading (getFilteredHeadings allowed ?hs options) =
        fst (filterLoop allowed options (effectiveMinLevel ?hs options) (fs, level h) rest)"
    by (simp only: headings_getFilteredHeadings survivors_def)
next
  assume "level r \<le> l"
  then show "filterStep allowed options m (fs, l) r = filterStep allowed options m (fs, 0) r"
    by (rule filterStep_scope_end)
next
  assume ex: "allowed ''A'' options \<and> \<not> allowed ''B'' options \<and> allowed ''D'' options \<and>
          minLevel options \<le> 1 \<and> (maxLevel options \<le> 0 \<or> 1 \<le> maxLevel options)"
  let ?hs = "[hA, hB, hC, hD]"
  have m: "effectiveMinLevel ?hs options = Fin 1"
    using ex by (auto simp: effectiveMinLevel_def hA_def hB_def hC_def hD_def)
  have "survivors allowed ?hs options =
        fst (filterLoop allowed options (Fin 1) ([], 0) ?hs)"
    by (simp only: survivors_def m)
  also have "\<dots> = [hA, hD]"
    using assms ex
    by (auto simp: filterLoop_def filterStep_def hA_def hB_def hC_def hD_def)
  finally have "survivors allowed ?hs options = [hA, hD]" .
  then show "getFilteredHeadings allowed ?hs options =
            [\<lparr>FilteredHeading.heading = hA, depth = 0\<rparr>,
             \<lparr>FilteredHeading.heading = hD, depth = 0\<rparr>]"
    by (simp add: getFilteredHeadings_zip computeNormalizedDepths_def depthStep_def
          hA_def hD_def)
qed

theorem exclude_mode_cascade_witness:
  "exclude excludeB \<noteq> None \<and>
   filterLoop (\<lambda>s _. s \<noteq> ''B'') excludeB (effectiveMinLevel [hA, hB, hC, hD] excludeB)
     ([], 0) [hA] = ([hA], 0) \<and>
   \<not> (\<lambda>s _. s \<noteq> ''B'') (HeadingCache.heading hB) excludeB \<and>
   0 < level hB \<and> level hB < level hC \<and>
   map FilteredHeading.heading
     (getFilteredHeadings (\<lambda>s _. s \<noteq> ''B'') [hA, hB, hC, hD] excludeB) =
     fst (filterLoop (\<lambda>s _. s \<noteq> ''B'') excludeB (effectiveMinLevel [hA, hB, hC, hD] excludeB)
            ([hA], level hB) [hD]) \<and>
   fst (filterLoop (\<lambda>s _. s \<noteq> ''B'') excludeB (effectiveMinLevel [hA, hB, hC, hD] excludeB)
            ([hA], level hB) [hD]) = [hA, hD] \<and>
   level hD \<le> level hB \<and>
   filterStep (\<lambda>s _. s \<noteq> ''B'') excludeB (Fin 1) ([hA], level hB) hD =
     filterStep (\<lambda>s _. s \<noteq> ''B'') excludeB (Fin 1) ([hA], 0) hD \<and>
   getFilteredHeadings (\<lambda>s _. s \<noteq> ''B'') [hA, hB, hC, hD] excludeB =
     [\<lparr>FilteredHeading.heading = hA, depth = 0\<rparr>, \<lparr>FilteredHeading.heading = hD, depth = 0\<rparr>]"
  using exclude_mode_cascade [where options = excludeB and allowed = "\<lambda>s _. s \<noteq> ''B''"
      and pre = "[hA]" and h = hB and mid = "[hC]" and rest = "[hD]" and fs = "[hA]" and u = 0
      and r = hD and l = "level hB" and m = "Fin 1"]
  by (simp add: excludeB_def hA_def hB_def hC_def hD_def filterLoop_def filterStep_def
        effectiveMinLevel_def)

section \<open>Markdown list builder\<close>

lemma concat_replicate_single: "concat (replicate n [c]) = replicate n c"
  by (induction n) simp_all

lemma join_Cons_nonempty: "x \<noteq> [] \<Longrightarrow> join sep (x # xs) \<noteq> []"
  by (cases xs) simp_all

lemma getMarkdownListFromHeadings_lines:
  "getMarkdownListFromHeadings allowed fmt hs isOrdered options =
     (case getFilteredHeadings allowed hs options of
        [] \<Rightarrow> None
      | f # fs \<Rightarrow> Some (join [newline] (map (listLine fmt options isOrdered) (f # fs))))"
  by (simp add: getMarkdownListFromHeadings_def Let_def listLine_def [abs_def] listMarker_def
        indentUnit_def concat_replicate_single split: list.splits)

lemma listLine_nonempty: "listLine fmt options isOrdered f \<noteq> []"
  by (simp add: listLine_def listMarker_def)

lemma getMarkdownListFromHeadings_not_empty_string:
  "getMarkdownListFromHeadings allowed fmt hs isOrdered options \<noteq> Some []"
  by (simp add: getMarkdownListFromHeadings_lines join_Cons_nonempty listLine_nonempty
        split: list.splits)

text \<open>
  Claim C6.  The nested unordered and nested ordered handlers return \<open>None\<close> (\<^verbatim>\<open>null\<close>) when
  nothing survives the filter, and otherwise the filtered headings' lines joined by a
  newline, one line per heading: \<open>depth\<close> indent units, the marker \<^verbatim>\<open>-\<close> or \<^verbatim>\<open>1.\<close>, a space and
  the formatted label.  Neither ever returns the empty string.
\<close>

theorem markdown_list_lines:
  "getMarkdownNestedListFromHeadings allowed fmt hs options =
     (case getFilteredHeadings allowed hs options of
        [] \<Rightarrow> None
      | f # fs \<Rightarrow> Some (join [newline] (map (listLine fmt options False) (f # fs)))) \<and>
   getMarkdownNestedOrderedListFromHeadings allowed fmt hs options =
     (case getFilteredHeadings allowed hs options of
        [] \<Rightarrow> None
      | f # fs \<Rightarrow> Some (join [newline] (map (listLine fmt options True) (f # fs)))) \<and>
   getMarkdownNestedListFromHeadings allowed fmt hs options \<noteq> Some [] \<and>
   getMarkdownNestedOrderedListFromHeadings allowed fmt hs options \<noteq> Some []"
  unfolding getMarkdownNestedListFromHeadings_def getMarkdownNestedOrderedListFromHeadings_def
  using getMarkdownListFromHeadings_lines [of allowed fmt hs False options]
    getMarkdownListFromHeadings_lines [of allowed fmt hs True options]
    getMarkdownListFromHeadings_not_empty_string [of allowed fmt hs False options]
    getMarkdownListFromHeadings_not_empty_string [of allowed fmt hs True options]
  by blast

section \<open>Title and empty state\<close>

lemma getFilteredHeadings_Nil: "getFilteredHeadings allowed [] options = []"
  by (simp add: getFilteredHeadings_def filterLoop_def)

lemma handlers_Nil: "markdownHandlersByStyle s allowed fmt [] options = None"
  by (cases s)
    (simp_all add: markdownHandlersByStyle_def getMarkdownNestedListFromHeadings_def
      getMarkdownNestedOrderedListFromHeadings_def getMarkdownListFromHeadings_def
      getMarkdownInlineFirstLevelFromHeadings_def getFilteredHeadings_Nil)

lemma titleMarkdown_titlePrefix:
  "(if length (title options) > 0
    then title options @ (if style options = inlineFirstLevel then '' '' else [newline])
    else []) = titlePrefix options"
  by (cases "style options") (simp_all add: titlePrefix_def)

lemma getMarkdownFromHeadings_cases:
  "getMarkdownFromHeadings allowed fmt hs options =
     (case markdownHandlersByStyle (style options) allowed fmt hs options of
        None \<Rightarrow> if hideWhenEmpty options then [] else titlePrefix options @ emptyNotice
      | Some body \<Rightarrow> titlePrefix options @ body) \<and>
   getMarkdownFromHeadings allowed fmt [] options =
     (if hideWhenEmpty options then [] else titlePrefix options @ emptyNotice)"
proof -
  have e: "getMarkdownFromHeadings allowed fmt xs options =
     (case markdownHandlersByStyle (style options) allowed fmt xs options of
        None \<Rightarrow> if hideWhenEmpty options then [] else titlePrefix options @ emptyNotice
      | Some body \<Rightarrow> titlePrefix options @ body)" for xs
    unfolding getMarkdownFromHeadings_def Let_def titleMarkdown_titlePrefix emptyNotice_def ..
  show ?thesis
    using e [of hs] e [of "[]"] by (simp add: handlers_Nil)
qed

lemma effectiveMinLevelE_cases:
  "effectiveMinLevelE argLimit hs options =
     (if \<not> 0 < minLevel options \<and> argLimit < length hs then Inl RangeError
      else Inr (effectiveMinLevel hs options))"
  by (simp add: effectiveMinLevelE_def Math_min_spread_def effectiveMinLevel_def)

lemma getFilteredHeadingsE_cases:
  "getFilteredHeadingsE argLimit allowed hs options =
     (if \<not> 0 < minLevel options \<and> argLimit < length hs then Inl RangeError
      else Inr (getFilteredHeadings allowed hs options))"
  by (simp add: getFilteredHeadingsE_def effectiveMinLevelE_cases getFilteredHeadings_def Let_def)

lemma getMarkdownListFromHeadingsE_cases:
  "getMarkdownListFromHeadingsE argLimit allowed fmt hs isOrdered options =
     (if \<not> 0 < minLevel options \<and> argLimit < length hs then Inl RangeError
      else Inr (getMarkdownListFromHeadings allowed fmt hs isOrdered options))"
  by (simp add: getMarkdownListFromHeadingsE_def getFilteredHeadingsE_cases
        getMarkdownListFromHeadings_def Let_def)

lemma getMarkdownInlineFirstLevelFromHeadingsE_cases:
  "getMarkdownInlineFirstLevelFromHeadingsE argLimit allowed fmt hs options =
     (if \<not> 0 < minLevel options \<and> argLimit < length hs then Inl RangeError
      else Inr (getMarkdownInlineFirstLevelFromHeadings allowed fmt hs options))"
  by (simp add: getMarkdownInlineFirstLevelFromHeadingsE_def effectiveMinLevelE_cases
        getMarkdownInlineFirstLevelFromHeadings_def Let_def)

lemma markdownHandlersByStyleE_cases:
  "markdownHandlersByStyleE argLimit s allowed fmt hs options =
     (if \<not> 0 < minLevel options \<and> argLimit < length hs then Inl RangeError
      else Inr (markdownHandlersByStyle s allowed fmt hs options))"
  by (cases s)
    (simp_all add: markdownHandlersByStyleE_def markdownHandlersByStyle_def
      getMarkdownListFromHeadingsE_cases getMarkdownInlineFirstLevelFromHeadingsE_cases
      getMarkdownNestedListFromHeadings_def getMarkdownNestedOrderedListFromHeadings_def)

lemma getMarkdownFromHeadingsE_cases:
  "getMarkdownFromHeadingsE argLimit allowed fmt hs options =
     (if \<not> 0 < minLevel options \<and> argLimit < length hs then Inl RangeError
      else Inr (getMarkdownFromHeadings allowed fmt hs options))"
  by (simp add: getMarkdownFromHeadingsE_def markdownHandlersByStyleE_cases
        getMarkdownFromHeadings_def Let_def)

text \<open>
  Claim C7.  Where the engine accepts the call of \<^verbatim>\<open>Math.min\<close>, \<^verbatim>\<open>getMarkdownFromHeadings\<close>
  puts the title prefix before the handler's body, and when the handler returns \<^verbatim>\<open>null\<close>
  the result is the empty string if \<^verbatim>\<open>hideWhenEmpty\<close> is set and otherwise the title prefix
  followed by the notice.  It is not free of errors for every heading list: when
  \<^verbatim>\<open>options.minLevel\<close> is not positive and the list has more headings than the engine
  takes arguments, the call raises \<^verbatim>\<open>RangeError\<close>, also for a list of empty labels whose
  outcome would be the notice; so it does for 65537 headings where the limit is 65536.
\<close>

theorem markdown_raises_on_long_list:
  "getMarkdownFromHeadingsE argLimit allowed fmt hs options =
     (if \<not> 0 < minLevel options \<and> argLimit < length hs then Inl RangeError
      else Inr (case markdownHandlersByStyle (style options) allowed fmt hs options of
                  None \<Rightarrow> if hideWhenEmpty options then [] else titlePrefix options @ emptyNotice
                | Some body \<Rightarrow> titlePrefix options @ body)) \<and>
   getMarkdownFromHeadingsE 65536 (\<lambda>_ _. True) (\<lambda>s _. s) (replicate 65537 hEmpty) listOptions =
     Inl RangeError \<and>
   getMarkdownFromHeadingsE argLimit allowed fmt [] options =
     Inr (if hideWhenEmpty options then [] else titlePrefix options @ emptyNotice)"
proof (intro conjI)
  show "getMarkdownFromHeadingsE argLimit allowed fmt hs options =
     (if \<not> 0 < minLevel options \<and> argLimit < length hs then Inl RangeError
      else Inr (case markdownHandlersByStyle (style options) allowed fmt hs options of
                  None \<Rightarrow> if hideWhenEmpty options then [] else titlePrefix options @ emptyNotice
                | Some body \<Rightarrow> titlePrefix options @ body))"
    using getMarkdownFromHeadings_cases [of allowed fmt hs options]
    by (simp add: getMarkdownFromHeadingsE_cases)
  have "\<not> 0 < minLevel listOptions \<and> 65536 < length (replicate 65537 hEmpty)"
    by (simp add: listOptions_def)
  then show "getMarkdownFromHeadingsE 65536 (\<lambda>_ _. True) (\<lambda>s _. s) (replicate 65537 hEmpty)
      listOptions = Inl RangeError"
    by (simp only: getMarkdownFromHeadingsE_cases simp_thms if_True)
  show "getMarkdownFromHeadingsE argLimit allowed fmt [] options =
     Inr (if hideWhenEmpty options then [] else titlePrefix options @ emptyNotice)"
    using getMarkdownFromHeadings_cases [of allowed fmt hs options]
    by (simp add: getMarkdownFromHeadingsE_cases)
qed

section \<open>Inline first level\<close>

lemma Math_min_Min: "xs \<noteq> [] \<Longrightarrow> Math_min xs = Fin (Min (set xs))"
proof (induction xs)
  case Nil
  then show ?case by simp
next
  case (Cons x xs)
  show ?case
  proof (cases "xs = []")
    case True
    then show ?thesis by simp
  next
    case False
    with Cons.IH have "Math_min xs = Fin (Min (set xs))" by simp
    with False show ?thesis by simp
  qed
qed

lemma effectiveMinLevel_cases:
  "effectiveMinLevel hs options =
     (if minLevel options > 0 then Fin (minLevel options)
      else if hs = [] then Infinity else Fin (Min (level ` set hs)))"
  by (simp add: effectiveMinLevel_def Math_min_Min)

lemma inline_items:
  "getMarkdownInlineFirstLevelFromHeadings allowed fmt hs options =
     (if inlineSelected allowed hs options = [] then None
      else Some (join '' | '' (map (\<lambda>h. fmt (HeadingCache.heading h) options)
                   (inlineSelected allowed hs options))))"
proof -
  have "filter (\<lambda>h. allowed (HeadingCache.heading h) options)
          (filter (\<lambda>h. length (HeadingCache.heading h) > 0)
            (filter (\<lambda>h. Fin (level h) = effectiveMinLevel hs options) hs)) =
        inlineSelected allowed hs options"
    by (auto simp: inlineSelected_def intro: filter_cong)
  then show ?thesis
    by (simp add: getMarkdownInlineFirstLevelFromHeadings_def Let_def)
qed

text \<open>
  Claim C8.  The inline handler joins with \<^verbatim>\<open> | \<close> the formatted labels of the headings
  that sit exactly at the effective minimum level, have a non-empty label and pass the
  pattern test, each heading judged on its own, and returns \<^verbatim>\<open>null\<close> when there is none.
  The effective minimum level is \<^verbatim>\<open>options.minLevel\<close> when positive and otherwise the least
  level of the whole input.  On A(1), B(2), C(1) with automatic minimum level the result
  joins the formatted A and C.
\<close>

theorem inline_first_level:
  "getMarkdownInlineFirstLevelFromHeadings allowed fmt hs options =
     (if inlineSelected allowed hs options = [] then None
      else Some (join '' | '' (map (\<lambda>h. fmt (HeadingCache.heading h) options)
                   (inlineSelected allowed hs options)))) \<and>
   effectiveMinLevel hs options =
     (if minLevel options > 0 then Fin (minLevel options)
      else if hs = [] then Infinity else Fin (Min (level ` set hs))) \<and>
   (minLevel options \<le> 0 \<and> allowed ''A'' options \<and> allowed ''C'' options \<longrightarrow>
    getMarkdownInlineFirstLevelFromHeadings allowed fmt
      [hA, hB, hC1] options =
      Some (fmt ''A'' options @ '' | '' @ fmt ''C'' options))"
proof (intro conjI impI)
  show "getMarkdownInlineFirstLevelFromHeadings allowed fmt hs options =
     (if inlineSelected allowed hs options = [] then None
      else Some (join '' | '' (map (\<lambda>h. fmt (HeadingCache.heading h) options)
                   (inlineSelected allowed hs options))))"
    by (rule inline_items)
  show "effectiveMinLevel hs options =
     (if minLevel options > 0 then Fin (minLevel options)
      else if hs = [] then Infinity else Fin (Min (level ` set hs)))"
    by (rule effectiveMinLevel_cases)
next
  assume ex: "minLevel options \<le> 0 \<and> allowed ''A'' options \<and> allowed ''C'' options"
  let ?hs = "[hA, hB, hC1]"
  have m: "effectiveMinLevel ?hs options = Fin 1"
    using ex by (simp add: effectiveMinLevel_def hA_def hB_def hC1_def)
  have "inlineSelected allowed ?hs options = [hA, hC1]"
    unfolding inlineSelected_def m using ex by (simp add: hA_def hB_def hC1_def)
  then show "getMarkdownInlineFirstLevelFromHeadings allowed fmt ?hs options =
      Some (fmt ''A'' options @ '' | '' @ fmt ''C'' options)"
    by (simp add: inline_items hA_def hC1_def)
qed

theorem inline_first_level_witness:
  "minLevel plainOptions \<le> 0 \<and>
   getMarkdownInlineFirstLevelFromHeadings (\<lambda>_ _. True) (\<lambda>s _. ''[[#'' @ s @ '']]'')
      [hA, hB, hC1] plainOptions = Some ''[[#A]] | [[#C]]''"
  using inline_first_level [of "\<lambda>_ _. True" "\<lambda>s _. ''[[#'' @ s @ '']]''"
      "[hA, hB, hC1]" plainOptions]
  by (simp add: plainOptions_def hA_def hB_def hC1_def inlineSelected_def effectiveMinLevel_def
        getMarkdownInlineFirstLevelFromHeadings_def)

section \<open>Tree builder\<close>

lemma preorder_ids: "map fst (preorder d T) = ids T"
proof (induction T arbitrary: d)
  case (RNode r t cs)
  have eq: "map (\<lambda>c. map fst (preorder (Suc d) c)) (rev cs) = map ids (rev cs)"
  proof (rule map_cong [OF refl])
    fix c assume "c \<in> set (rev cs)"
    then have "c \<in> set cs" by simp
    then show "map fst (preorder (Suc d) c) = ids c" by (rule RNode.IH)
  qed
  show ?case by (simp add: map_concat rev_map o_def eq)
qed

lemma preF_idsF: "map fst (preF d F) = idsF F"
  by (simp add: preF_def idsF_def map_concat rev_map o_def preorder_ids)

lemma nesting_erase: "nesting d (erase T) = map snd (preorder d T)"
proof (induction T arbitrary: d)
  case (RNode r t cs)
  have eq: "map (\<lambda>c. nesting (Suc d) (erase c)) (rev cs) =
            map (\<lambda>c. map snd (preorder (Suc d) c)) (rev cs)"
  proof (rule map_cong [OF refl])
    fix c assume "c \<in> set (rev cs)"
    then have "c \<in> set cs" by simp
    then show "nesting (Suc d) (erase c) = map snd (preorder (Suc d) c)" by (rule RNode.IH)
  qed
  show ?case by (simp add: map_concat rev_map o_def eq)
qed

lemma forestNesting_erase: "forestNesting (rev (map erase F)) = map snd (preF 0 F)"
  by (simp add: forestNesting_def preF_def map_concat rev_map o_def nesting_erase)

lemma preF_Cons: "preF d (T # F) = preF d F @ preorder d T"
  by (simp add: preF_def)

lemma preorder_attach:
  "k \<le> length (spineF F) \<Longrightarrow>
   preF d (attachF k (RNode n t []) F) = preF d F @ [(n, t, d + k)]"
proof (induction k arbitrary: F d)
  case 0
  show ?case by (simp add: preF_Cons)
next
  case (Suc k)
  then obtain r t' cs F' where F: "F = RNode r t' cs # F'"
    by (cases F rule: spineF.cases) auto
  with Suc.prems have "k \<le> length (spineF cs)" by simp
  from Suc.IH [OF this, of "Suc d"] show ?case
    by (simp add: F preF_Cons) (simp add: preF_def)
qed

lemma spine_attach:
  "k \<le> length (spineF F) \<Longrightarrow> spineF (attachF k (RNode n t []) F) = take k (spineF F) @ [n]"
proof (induction k arbitrary: F)
  case 0
  show ?case by simp
next
  case (Suc k)
  then obtain r t' cs F' where F: "F = RNode r t' cs # F'"
    by (cases F rule: spineF.cases) auto
  with Suc.prems have "k \<le> length (spineF cs)" by simp
  from Suc.IH [OF this] show ?case by (simp add: F)
qed

lemma roots_attach_Suc:
  "Suc k \<le> length (spineF F) \<Longrightarrow> map iroot (attachF (Suc k) n F) = map iroot F"
  by (cases F rule: spineF.cases) auto

lemma popStack_drop:
  "map snd stack = rev [0..<k] \<Longrightarrow> d \<le> k \<Longrightarrow> popStack stack d = drop (k - d) stack"
proof (induction stack arbitrary: k)
  case Nil
  show ?case by simp
next
  case (Cons e stack)
  then obtain j where k: "k = Suc j" by (cases k) auto
  with Cons.prems have e: "snd e = j" and st: "map snd stack = rev [0..<j]" by auto
  show ?case
  proof (cases "d \<le> j")
    case True
    with Cons.IH [OF st True] e k show ?thesis by (simp add: Suc_diff_le)
  next
    case False
    with Cons.prems k have "d = Suc j" by simp
    with e k show ?thesis by simp
  qed
qed

lemma ids_RNode: "ids (RNode r t cs) = r # idsF cs"
  by (simp add: idsF_def)

declare ids.simps [simp del]

lemma idsF_Nil: "idsF [] = []"
  by (simp add: idsF_def)

lemma idsF_Cons: "idsF (T # F) = idsF F @ ids T"
  by (simp add: idsF_def)

lemma ids_subset_idsF: "T \<in> set F \<Longrightarrow> set (ids T) \<subseteq> set (idsF F)"
  by (auto simp: idsF_def)

lemma length_ids_le_idsF: "T \<in> set F \<Longrightarrow> length (ids T) \<le> length (idsF F)"
proof (induction F)
  case Nil
  then show ?case by simp
next
  case (Cons U F)
  then show ?case by (auto simp: idsF_Cons)
qed

lemma spineF_subset_idsF: "set (spineF F) \<subseteq> set (idsF F)"
proof (induction F rule: spineF.induct)
  case 1
  show ?case by simp
next
  case (2 r t cs F)
  then show ?case by (auto simp: idsF_Cons ids_RNode)
qed

lemma agrees_frame:
  "agrees h T \<Longrightarrow> length h \<le> length h' \<Longrightarrow> \<forall>i \<in> set (ids T). h' ! i = h ! i \<Longrightarrow>
   agrees h' T"
proof (induction T)
  case (RNode r t cs)
  have "agrees h' c" if c: "c \<in> set cs" for c
  proof (rule RNode.IH [OF c])
    show "agrees h c" using RNode.prems(1) c by simp
    show "length h \<le> length h'" by (rule RNode.prems(2))
    show "\<forall>i \<in> set (ids c). h' ! i = h ! i"
      using RNode.prems(3) ids_subset_idsF [OF c] by (auto simp: ids_RNode)
  qed
  moreover have "h' ! r = h ! r" using RNode.prems(3) by (simp add: ids_RNode)
  ultimately show ?case using RNode.prems(1,2) by simp
qed

lemma length_pushChild: "length (pushChild h p n) = length h"
  by (simp add: pushChild_def)

lemma pushChild_other: "i \<noteq> p \<Longrightarrow> pushChild h p n ! i = h ! i"
  by (simp add: pushChild_def)

lemma pushChild_same:
  "p < length h \<Longrightarrow> pushChild h p n ! p = (h ! p)\<lparr>children := children (h ! p) @ [n]\<rparr>"
  by (simp add: pushChild_def)

lemma agrees_pushChild_other:
  assumes "agrees h T" and "p \<notin> set (ids T)"
  shows "agrees (pushChild h p n) T"
proof (rule agrees_frame [OF assms(1)])
  show "length h \<le> length (pushChild h p n)" by (simp add: length_pushChild)
  show "\<forall>i \<in> set (ids T). pushChild h p n ! i = h ! i"
  proof
    fix i assume "i \<in> set (ids T)"
    with assms(2) have "i \<noteq> p" by blast
    then show "pushChild h p n ! i = h ! i" by (rule pushChild_other)
  qed
qed

lemma agrees_attach:
  assumes "\<forall>T \<in> set F. agrees h T" and "distinct (idsF F)" and "n \<notin> set (idsF F)"
    and "n < length h" and "text (h ! n) = t" and "children (h ! n) = []"
    and "Suc j \<le> length (spineF F)"
  shows "\<forall>T \<in> set (attachF (Suc j) (RNode n t []) F).
           agrees (pushChild h (spineF F ! j) n) T"
  using assms
proof (induction j arbitrary: F)
  case 0
  then obtain r t' cs F' where F: "F = RNode r t' cs # F'"
    by (cases F rule: spineF.cases) auto
  let ?h' = "pushChild h r n"
  from 0(1) F have ag: "agrees h (RNode r t' cs)" and agF': "\<forall>T \<in> set F'. agrees h T"
    by simp_all
  from 0(2,3) F have r1: "r \<notin> set (idsF cs)" and r2: "r \<notin> set (idsF F')" and nr: "n \<noteq> r"
    by (auto simp: idsF_Cons ids_RNode)
  have "agrees ?h' c" if "c \<in> set cs" for c
    using ag that r1 ids_subset_idsF [OF that] by (intro agrees_pushChild_other) auto
  moreover have "agrees ?h' (RNode n t [])"
    using 0(4,5,6) nr by (simp add: length_pushChild pushChild_other)
  ultimately have "agrees ?h' (RNode r t' (RNode n t [] # cs))"
    using ag by (simp add: length_pushChild pushChild_same)
  moreover have "agrees ?h' T" if "T \<in> set F'" for T
    using agF' that r2 ids_subset_idsF [OF that] by (intro agrees_pushChild_other) auto
  ultimately show ?case by (simp add: F)
next
  case (Suc j)
  then obtain r t' cs F' where F: "F = RNode r t' cs # F'"
    by (cases F rule: spineF.cases) auto
  let ?p = "spineF cs ! j"
  let ?h' = "pushChild h ?p n"
  from Suc.prems(7) F have len: "Suc j \<le> length (spineF cs)" by simp
  then have "?p \<in> set (spineF cs)" by simp
  then have p: "?p \<in> set (idsF cs)" using spineF_subset_idsF by blast
  from Suc.prems(1) F have ag: "agrees h (RNode r t' cs)" and agF': "\<forall>T \<in> set F'. agrees h T"
    by simp_all
  from Suc.prems(2,3) F p have pr: "?p \<noteq> r" and pF': "?p \<notin> set (idsF F')"
    and dcs: "distinct (idsF cs)" and ncs: "n \<notin> set (idsF cs)"
    by (auto simp: idsF_Cons ids_RNode)
  have "\<forall>c \<in> set (attachF (Suc j) (RNode n t []) cs). agrees ?h' c"
    using ag dcs ncs Suc.prems(4,5,6) len by (intro Suc.IH) simp_all
  moreover have "map iroot (attachF (Suc j) (RNode n t []) cs) = map iroot cs"
    using len by (rule roots_attach_Suc)
  ultimately have "agrees ?h' (RNode r t' (attachF (Suc j) (RNode n t []) cs))"
    using ag pr by (simp add: length_pushChild pushChild_other)
  moreover have "agrees ?h' T" if "T \<in> set F'" for T
    using agF' that pF' ids_subset_idsF [OF that] by (intro agrees_pushChild_other) auto
  ultimately show ?case by (simp add: F)
qed

lemma those_map_Some: "those (map (\<lambda>x. Some (f x)) xs) = Some (map f xs)"
  by (induction xs) simp_all

lemma treeAt_agrees:
  "agrees h T \<Longrightarrow> length (ids T) \<le> k \<Longrightarrow> treeAt k h (iroot T) = Some (erase T)"
proof (induction T arbitrary: k)
  case (RNode r t cs)
  from RNode.prems(2) obtain k' where k: "k = Suc k'" and le: "length (idsF cs) \<le> k'"
    by (cases k) (auto simp: ids_RNode)
  have eq: "map (treeAt k' h) (rev (map iroot cs)) = map (\<lambda>c. Some (erase c)) (rev cs)"
    unfolding rev_map map_map o_def
  proof (rule map_cong [OF refl])
    fix c assume "c \<in> set (rev cs)"
    then have c: "c \<in> set cs" by simp
    show "treeAt k' h (iroot c) = Some (erase c)"
    proof (rule RNode.IH [OF c])
      show "agrees h c" using RNode.prems(1) c by simp
      show "length (ids c) \<le> k'" using length_ids_le_idsF [OF c] le by simp
    qed
  qed
  from RNode.prems(1) have r: "r < length h" "text (h ! r) = t"
    and ch: "children (h ! r) = rev (map iroot cs)"
    by simp_all
  have "those (map (treeAt k' h) (children (h ! r))) = Some (map erase (rev cs))"
    unfolding ch eq by (rule those_map_Some)
  with r show ?case by (simp add: k rev_map)
qed

lemma rev_popStack:
  assumes "map snd (rev stack) = [0..<length stack]" and "d \<le> length stack"
  shows "rev (popStack stack d) = take d (rev stack)"
proof -
  from assms(1) have "map snd stack = rev [0..<length stack]"
    by (simp add: rev_map [symmetric] rev_swap)
  from popStack_drop [OF this assms(2)] assms(2) show ?thesis
    by (simp add: rev_drop)
qed

lemma idsF_attach:
  "k \<le> length (spineF F) \<Longrightarrow> idsF (attachF k (RNode n t []) F) = idsF F @ [n]"
  using preorder_attach [of k F 0 n t] by (simp add: preF_idsF [of 0, symmetric])

lemma agrees_append:
  "agrees h T \<Longrightarrow> \<forall>i \<in> set (ids T). i < length h \<Longrightarrow> agrees (h @ [x]) T"
  by (rule agrees_frame [where h = h]) (simp_all add: nth_append)

lemma buildStep_treeInv:
  fixes fmt :: "'p format_fn"
  assumes inv: "treeInv (h, roots, stack) F" and d: "depth item \<le> length stack"
  shows "treeInv (buildStep fmt options (h, roots, stack) item)
           (attachF (depth item)
              (RNode (length h) (fmt (HeadingCache.heading (FilteredHeading.heading item)) options) [])
              F) \<and>
         length (snd (snd (buildStep fmt options (h, roots, stack) item))) = Suc (depth item)"
proof -
  define lbl where "lbl = fmt (HeadingCache.heading (FilteredHeading.heading item)) options"
  define n where "n = length h"
  define h1 where "h1 = h @ [\<lparr>text = lbl, children = []\<rparr>]"
  define stack1 where "stack1 = popStack stack (depth item)"
  define F' where "F' = attachF (depth item) (RNode n lbl []) F"
  let ?d = "depth item"
  let ?S = "rev stack"
  from inv have roots: "roots = rev (map iroot F)" and ag: "\<forall>T \<in> set F. agrees h T"
    and idF: "idsF F = [0..<n]" and sp: "map fst ?S = spineF F"
    and dp: "map snd ?S = [0..<length stack]"
    by (simp_all add: treeInv_def n_def)
  from sp have len: "length (spineF F) = length stack"
    by (metis length_map length_rev)
  with d have dsp: "?d \<le> length (spineF F)" by simp
  have st1: "rev stack1 = take ?d ?S"
    unfolding stack1_def using dp d by (rule rev_popStack)
  then have lst1: "length stack1 = ?d"
    using d by (metis length_rev length_take min.absorb2)
  have tf: "map fst (take ?d ?S) = take ?d (spineF F)"
    by (simp only: take_map [symmetric] sp)
  have "take ?d [0..<length stack] = [0..<?d]"
    using d by simp
  then have ts: "map snd (take ?d ?S) = [0..<?d]"
    by (simp only: take_map [symmetric] dp)
  have A: "map fst (rev ((n, ?d) # stack1)) = spineF F'"
    using spine_attach [OF dsp, of n lbl] by (simp add: st1 F'_def tf)
  have B: "map snd (rev ((n, ?d) # stack1)) = [0..<length ((n, ?d) # stack1)]"
    by (simp add: st1 lst1 ts)
  have C: "idsF F' = [0..<Suc n]"
    using idsF_attach [OF dsp, of n lbl] by (simp add: F'_def idF)
  have ag1: "\<forall>T \<in> set F. agrees h1 T"
  proof
    fix T assume T: "T \<in> set F"
    have "\<forall>i \<in> set (ids T). i < length h"
      using ids_subset_idsF [OF T] idF by (auto simp: n_def)
    with ag T show "agrees h1 T" unfolding h1_def by (intro agrees_append) simp_all
  qed
  have leaf: "n < length h1" "text (h1 ! n) = lbl" "children (h1 ! n) = []"
    by (simp_all add: h1_def n_def)
  show ?thesis
  proof (cases ?d)
    case 0
    with lst1 have e: "stack1 = []" by simp
    have step: "buildStep fmt options (h, roots, stack) item = (h1, roots @ [n], (n, ?d) # stack1)"
      by (simp add: buildStep_def Let_def e stack1_def [symmetric] h1_def lbl_def n_def)
    have "F' = RNode n lbl [] # F" by (simp add: F'_def 0)
    with ag1 leaf roots have "roots @ [n] = rev (map iroot F')" "\<forall>T \<in> set F'. agrees h1 T"
      by simp_all
    with A B C have "treeInv (h1, roots @ [n], (n, ?d) # stack1) F'"
      by (simp add: treeInv_def h1_def n_def)
    then show ?thesis
      unfolding step by (simp add: lst1 F'_def lbl_def n_def)
  next
    case (Suc j)
    with d have j: "j < length ?S" by simp
    from st1 Suc j have "rev stack1 = take j ?S @ [?S ! j]"
      by (simp add: take_Suc_conv_app_nth)
    then have "stack1 = (?S ! j) # rev (take j ?S)"
      by (metis rev_rev_ident rev_append rev.simps append_Cons append_Nil)
    then obtain rest where e: "stack1 = (?S ! j) # rest" by blast
    have top: "fst (?S ! j) = spineF F ! j"
      using j by (metis sp nth_map)
    have step: "buildStep fmt options (h, roots, stack) item =
                (pushChild h1 (spineF F ! j) n, roots, (n, ?d) # stack1)"
      using e top
      by (simp add: buildStep_def Let_def stack1_def [symmetric] h1_def lbl_def n_def)
    have sj: "Suc j \<le> length (spineF F)" using dsp Suc by simp
    have "\<forall>T \<in> set (attachF (Suc j) (RNode n lbl []) F). agrees (pushChild h1 (spineF F ! j) n) T"
      using ag1 _ _ leaf sj
    proof (rule agrees_attach)
      show "distinct (idsF F)" by (simp add: idF)
      show "n \<notin> set (idsF F)" by (simp add: idF)
    qed
    then have ag': "\<forall>T \<in> set F'. agrees (pushChild h1 (spineF F ! j) n) T"
      by (simp add: F'_def Suc)
    have "map iroot F' = map iroot F"
      unfolding F'_def Suc using sj by (rule roots_attach_Suc)
    with roots have "roots = rev (map iroot F')" by simp
    with ag' A B C have "treeInv (pushChild h1 (spineF F ! j) n, roots, (n, ?d) # stack1) F'"
      by (simp add: treeInv_def length_pushChild h1_def n_def)
    then show ?thesis
      unfolding step by (simp add: lst1 F'_def lbl_def n_def)
  qed
qed

lemma gapFreeFrom_depthsOK: "gapFreeFrom p ds \<Longrightarrow> depthsOK (Suc p) ds"
  by (induction ds arbitrary: p) simp_all

lemma rootedForestDepths_depthsOK: "rootedForestDepths ds \<Longrightarrow> depthsOK 0 ds"
  by (cases ds) (simp_all add: gapFreeFrom_depthsOK)

lemma foldl_buildStep_treeInv:
  fixes fmt :: "'p format_fn"
  shows "treeInv st F \<Longrightarrow> depthsOK (length (snd (snd st))) (map depth items) \<Longrightarrow>
   \<exists>F'. treeInv (foldl (buildStep fmt options) st items) F' \<and>
        map snd (preF 0 F') = map snd (preF 0 F) @ map (nodeOf fmt options) items"
proof (induction items arbitrary: st F)
  case Nil
  then show ?case by auto
next
  case (Cons item items)
  obtain h roots stack where st: "st = (h, roots, stack)" by (cases st)
  let ?F1 = "attachF (depth item)
      (RNode (length h) (fmt (HeadingCache.heading (FilteredHeading.heading item)) options) []) F"
  let ?st1 = "buildStep fmt options st item"
  from Cons.prems st have inv: "treeInv (h, roots, stack) F" and d: "depth item \<le> length stack"
    and rest: "depthsOK (Suc (depth item)) (map depth items)"
    by simp_all
  from buildStep_treeInv [OF inv d, of fmt options]
  have inv1: "treeInv ?st1 ?F1" and len1: "length (snd (snd ?st1)) = Suc (depth item)"
    by (simp_all add: st)
  from rest len1 have "depthsOK (length (snd (snd ?st1))) (map depth items)" by simp
  from Cons.IH [OF inv1 this] obtain F'
    where F': "treeInv (foldl (buildStep fmt options) ?st1 items) F'"
      "map snd (preF 0 F') = map snd (preF 0 ?F1) @ map (nodeOf fmt options) items"
    by blast
  from inv have "map fst (rev stack) = spineF F" by (simp add: treeInv_def)
  then have "length (spineF F) = length stack" by (metis length_map length_rev)
  with d have "depth item \<le> length (spineF F)" by simp
  then have "map snd (preF 0 ?F1) = map snd (preF 0 F) @ [nodeOf fmt options item]"
    by (simp add: preorder_attach nodeOf_def)
  with F' show ?case by auto
qed

lemma treeInv_forestOf:
  assumes "treeInv (h, roots, stack) F"
  shows "forestOf (h, roots) = Some (rev (map erase F))"
proof -
  from assms have roots: "roots = rev (map iroot F)" and ag: "\<forall>T \<in> set F. agrees h T"
    and idF: "idsF F = [0..<length h]"
    by (simp_all add: treeInv_def)
  have "map (treeAt (length h) h) (rev (map iroot F)) = map (\<lambda>T. Some (erase T)) (rev F)"
    unfolding rev_map map_map o_def
  proof (rule map_cong [OF refl])
    fix T assume "T \<in> set (rev F)"
    then have T: "T \<in> set F" by simp
    have "length (ids T) \<le> length h"
      using length_ids_le_idsF [OF T] by (simp add: idF)
    with ag T show "treeAt (length h) h (iroot T) = Some (erase T)"
      by (intro treeAt_agrees) simp_all
  qed
  then have "those (map (treeAt (length h) h) roots) = Some (map erase (rev F))"
    unfolding roots by (simp only: those_map_Some)
  then show ?thesis by (simp add: forestOf_def rev_map)
qed

lemma buildTree_forest:
  fixes fmt :: "'p format_fn"
  assumes "rootedForestDepths (map depth flat)"
  shows "map_option forestNesting (forestOf (buildTree fmt options flat)) =
           Some (map (nodeOf fmt options) flat)"
proof -
  have inv0: "treeInv ([], [], []) []"
    by (simp add: treeInv_def idsF_def)
  have ok: "depthsOK (length (snd (snd (([], [], []) :: heap \<times> ref list \<times> (ref \<times> nat) list))))
              (map depth flat)"
    using assms by (simp add: rootedForestDepths_depthsOK)
  from foldl_buildStep_treeInv [OF inv0 ok, of fmt options] obtain F
    where F: "treeInv (foldl (buildStep fmt options) ([], [], []) flat) F"
      "map snd (preF 0 F) = map (nodeOf fmt options) flat"
    by (auto simp: preF_def)
  obtain h roots stack where st: "foldl (buildStep fmt options) ([], [], []) flat = (h, roots, stack)"
    by (cases "foldl (buildStep fmt options) ([], [], []) flat")
  with F(1) have "forestOf (h, roots) = Some (rev (map erase F))"
    by (simp add: treeInv_forestOf)
  moreover have "buildTree fmt options flat = (h, roots)"
    by (simp add: buildTree_def st)
  moreover have "forestNesting (rev (map erase F)) = map (nodeOf fmt options) flat"
    by (simp add: forestNesting_erase F(2))
  ultimately show ?thesis by simp
qed

text \<open>
  Claim C5.  For a depth sequence that starts at 0 and never rises by more than one, as
  every result of \<^verbatim>\<open>getFilteredHeadings\<close> does, the forest that \<^verbatim>\<open>buildTree\<close> returns can be
  read off the heap and lists, in document order, each element's formatted text at a
  nesting equal to its depth: an element of depth \<open>d\<close> lies below exactly \<open>d\<close> nodes.
\<close>

theorem buildTree_nesting:
  "(rootedForestDepths (map depth flat) \<longrightarrow>
      map_option forestNesting (forestOf (buildTree fmt options flat)) =
        Some (map (nodeOf fmt options) flat)) \<and>
   map_option forestNesting
     (forestOf (buildTree fmt options (getFilteredHeadings allowed hs options))) =
     Some (map (nodeOf fmt options) (getFilteredHeadings allowed hs options))"
proof (intro conjI impI)
  assume "rootedForestDepths (map depth flat)"
  then show "map_option forestNesting (forestOf (buildTree fmt options flat)) =
        Some (map (nodeOf fmt options) flat)"
    by (rule buildTree_forest)
next
  have "rootedForestDepths (map depth (getFilteredHeadings allowed hs options))"
    by (simp only: depths_getFilteredHeadings rootedForestDepths_computeNormalizedDepths)
  then show "map_option forestNesting
     (forestOf (buildTree fmt options (getFilteredHeadings allowed hs options))) =
     Some (map (nodeOf fmt options) (getFilteredHeadings allowed hs options))"
    by (rule buildTree_forest)
qed

theorem buildTree_nesting_witness:
  "rootedForestDepths (map depth sampleFlat) \<and>
   forestOf (buildTree (\<lambda>s _. s) plainOptions sampleFlat) =
     Some [Node ''A'' [Node ''B'' [Node ''C'' []], Node ''E'' []]] \<and>
   map_option forestNesting (forestOf (buildTree (\<lambda>s _. s) plainOptions sampleFlat)) =
     Some [(''A'', 0), (''B'', 1), (''C'', 2), (''E'', 1)]"
  using buildTree_nesting [where flat = sampleFlat and fmt = "\<lambda>s _. s" and options = plainOptions
      and allowed = "\<lambda>_ _. True" and hs = "[]"]
  by (simp add: sampleFlat_def hA_def hB_def hC_def hE_def nodeOf_def buildTree_def
        buildStep_def pushChild_def forestOf_def)

section \<open>Wikilink translation\<close>

lemma replaceAll_Cons:
  "replaceAll c r (x # xs) = (if x = c then r else [x]) @ replaceAll c r xs"
  by (simp add: replaceAll_def)

lemma replaceAll_append: "replaceAll c r (xs @ ys) = replaceAll c r xs @ replaceAll c r ys"
  by (simp add: replaceAll_def)

lemma replaceAll_Nil: "replaceAll c r [] = []"
  by (simp add: replaceAll_def)

lemma escapeHtml_Nil: "escapeHtml [] = []"
  by (simp add: escapeHtml_def replaceAll_def)

lemma escapeHtml_Cons: "escapeHtml (x # xs) = escapeChar x @ escapeHtml xs"
  by (simp add: escapeHtml_def escapeChar_def replaceAll_Cons replaceAll_append replaceAll_Nil
        dquote_def)

lemma escapeHtml_escapeChar: "escapeHtml s = concat (map escapeChar s)"
  by (induction s) (simp_all add: escapeHtml_Nil escapeHtml_Cons)

lemma take3: "take 3 (a # b # c # r) = [a, b, c]"
  by (simp add: numeral_3_eq_3)

lemma drop3: "drop 3 (a # b # c # r) = r"
  by (simp add: numeral_3_eq_3)

lemma take2: "take 2 (a # b # r) = [a, b]"
  by (simp add: numeral_2_eq_2)

lemma drop2: "drop 2 (a # b # r) = r"
  by (simp add: numeral_2_eq_2)

lemma matchLink_linkNotation:
  assumes t: "t \<noteq> []" "\<forall>c \<in> set t. isLinkChar c"
    and d: "d \<noteq> []" "\<forall>c \<in> set d. isDisplayChar c"
  shows "matchLink (linkNotation t d @ post) = Some (t, d, post)"
proof -
  let ?r3 = "d @ CHR '']'' # CHR '']'' # post"
  let ?r1 = "t @ CHR ''|'' # ?r3"
  have s: "linkNotation t d @ post = CHR ''['' # CHR ''['' # CHR ''#'' # ?r1"
    by (simp add: linkNotation_def)
  have t1: "takeWhile isLinkChar ?r1 = t"
    using t(2) by (simp add: isLinkChar_def)
  have t2: "dropWhile isLinkChar ?r1 = CHR ''|'' # ?r3"
    using t(2) by (simp add: isLinkChar_def)
  have d1: "takeWhile isDisplayChar ?r3 = d"
    using d(2) by (simp add: isDisplayChar_def)
  have d2: "dropWhile isDisplayChar ?r3 = CHR '']'' # CHR '']'' # post"
    using d(2) by (simp add: isDisplayChar_def)
  show ?thesis
    unfolding s matchLink_def take3 drop3 Let_def t1 t2
    using t(1) d(1) by (simp add: d1 d2 take2 drop2)
qed

lemma wikitextToHtml_linkNotation:
  assumes "t \<noteq> []" "\<forall>c \<in> set t. isLinkChar c" "d \<noteq> []" "\<forall>c \<in> set d. isDisplayChar c"
  shows "wikitextToHtml (linkNotation t d @ post) = anchor t d @ wikitextToHtml post"
proof -
  obtain c cs where s: "linkNotation t d @ post = c # cs"
    by (simp add: linkNotation_def)
  have "matchLink (c # cs) = Some (t, d, post)"
    using matchLink_linkNotation [OF assms, of post] by (simp only: s)
  then have "wikitextToHtml (c # cs) = anchor t d @ wikitextToHtml post"
    by simp
  then show ?thesis by (simp only: s)
qed

lemma matchLink_not_bracket: "c \<noteq> CHR ''['' \<Longrightarrow> matchLink (c # cs) = None"
proof -
  assume c: "c \<noteq> CHR ''[''"
  have "take 3 (c # cs) \<noteq> ''[[#''"
  proof
    assume "take 3 (c # cs) = ''[[#''"
    then have "hd (take 3 (c # cs)) = CHR ''[''" by simp
    with c show False by (simp add: numeral_3_eq_3)
  qed
  then show ?thesis unfolding matchLink_def by (rule if_not_P)
qed

lemma matchLink_no_pipe: "CHR ''|'' \<notin> set s \<Longrightarrow> matchLink s = None"
proof -
  assume np: "CHR ''|'' \<notin> set s"
  let ?r2 = "dropWhile isLinkChar (drop 3 s)"
  have "take 1 ?r2 \<noteq> ''|''"
  proof
    assume a: "take 1 ?r2 = ''|''"
    then have "CHR ''|'' \<in> set (take 1 ?r2)" by simp
    then have "CHR ''|'' \<in> set ?r2" by (rule in_set_takeD)
    then have "CHR ''|'' \<in> set (drop 3 s)" by (rule set_dropWhileD)
    then have "CHR ''|'' \<in> set s" by (rule in_set_dropD)
    with np show False by simp
  qed
  moreover have "\<not> B \<Longrightarrow> (if A then (if L \<and> B then x else None) else None) = None"
    for A L B and x :: "(string \<times> string \<times> string) option"
    by simp
  ultimately show ?thesis unfolding matchLink_def Let_def by blast
qed

lemma wikitextToHtml_unmatched_prefix:
  "noMatchWithin pre rest \<Longrightarrow> wikitextToHtml (pre @ rest) = pre @ wikitextToHtml rest"
proof (induction pre)
  case Nil
  show ?case by simp
next
  case (Cons a pre)
  then have "matchLink (a # pre @ rest) = None"
    and "wikitextToHtml (pre @ rest) = pre @ wikitextToHtml rest"
    by simp_all
  then show ?case by simp
qed

lemma noMatchWithin_no_bracket: "CHR ''['' \<notin> set pre \<Longrightarrow> noMatchWithin pre rest"
proof (induction pre)
  case Nil
  show ?case by simp
next
  case (Cons a pre)
  then have "a \<noteq> CHR ''[''" and "noMatchWithin pre rest" by auto
  then show ?case by (simp add: matchLink_not_bracket)
qed

lemma noMatchWithin_no_pipe: "CHR ''|'' \<notin> set (pre @ rest) \<Longrightarrow> noMatchWithin pre rest"
proof (induction pre)
  case Nil
  show ?case by simp
next
  case (Cons a pre)
  then have "CHR ''|'' \<notin> set (a # pre @ rest)" and "noMatchWithin pre rest" by auto
  then show ?case by (simp only: noMatchWithin.simps matchLink_no_pipe simp_thms)
qed

lemma wikitextToHtml_no_pipe: "CHR ''|'' \<notin> set s \<Longrightarrow> wikitextToHtml s = s"
proof (induction s)
  case Nil
  show ?case by simp
next
  case (Cons a s)
  then have "matchLink (a # s) = None" and "wikitextToHtml s = s"
    by (simp_all add: matchLink_no_pipe)
  then show ?case by simp
qed

text \<open>
  Claim C9.  A piece of link notation \<^verbatim>\<open>[[#target|display]]\<close> (a non-empty target without
  \<^verbatim>\<open>]\<close> and \<^verbatim>\<open>|\<close>, a non-empty display text without \<^verbatim>\<open>]\<close>) at which the scan arrives, no
  earlier match having started in the text before it, is replaced by the anchor element
  whose \<^verbatim>\<open>data-href\<close> and content are the target and the display text with \<^verbatim>\<open>&\<close>, \<^verbatim>\<open><\<close>, \<^verbatim>\<open>>\<close>
  and the double quote replaced by their entities; the scan then goes on behind the link.
  \<^verbatim>\<open>renderNodes\<close> stores this translation of the label, not the label, as the \<^verbatim>\<open>innerHTML\<close>
  of the list item of a node without children and of the summary of a node with children.
  Text without \<^verbatim>\<open>[\<close> starts no match, and \<^verbatim>\<open>escapeHtml\<close> is the character-wise replacement.
\<close>

theorem wikilink_escaped_anchor:
  assumes "target \<noteq> []" and "\<forall>c \<in> set target. c \<noteq> CHR '']'' \<and> c \<noteq> CHR ''|''"
    and "display \<noteq> []" and "\<forall>c \<in> set display. c \<noteq> CHR '']''"
    and "noMatchWithin pre (linkNotation target display @ post)"
  shows "wikitextToHtml (pre @ linkNotation target display @ post) =
           pre @ anchorElement (concat (map escapeChar target)) (concat (map escapeChar display)) @
           wikitextToHtml post \<and>
         renderNodes isOrdered [Node (pre @ linkNotation target display @ post) []] =
           ListEl isOrdered
             [LiHtml (pre @ anchorElement (concat (map escapeChar target))
                        (concat (map escapeChar display)) @ wikitextToHtml post)] \<and>
         (cs \<noteq> [] \<longrightarrow>
          renderNodes isOrdered [Node (pre @ linkNotation target display @ post) cs] =
            ListEl isOrdered
              [LiDetails (pre @ anchorElement (concat (map escapeChar target))
                            (concat (map escapeChar display)) @ wikitextToHtml post)
                 (renderNodes isOrdered cs)]) \<and>
         (CHR ''['' \<notin> set pre' \<longrightarrow> noMatchWithin pre' rest) \<and>
         escapeHtml s = concat (map escapeChar s)"
proof (intro conjI impI)
  have "wikitextToHtml (linkNotation target display @ post) =
        anchor target display @ wikitextToHtml post"
    using assms(1-4)
    by (intro wikitextToHtml_linkNotation) (simp_all add: isLinkChar_def isDisplayChar_def)
  moreover have "anchor target display =
      anchorElement (concat (map escapeChar target)) (concat (map escapeChar display))"
    by (simp add: anchor_def anchorElement_def escapeHtml_escapeChar)
  ultimately show w: "wikitextToHtml (pre @ linkNotation target display @ post) =
           pre @ anchorElement (concat (map escapeChar target)) (concat (map escapeChar display)) @
           wikitextToHtml post"
    using assms(5) by (simp add: wikitextToHtml_unmatched_prefix)
  show "renderNodes isOrdered [Node (pre @ linkNotation target display @ post) []] =
           ListEl isOrdered
             [LiHtml (pre @ anchorElement (concat (map escapeChar target))
                        (concat (map escapeChar display)) @ wikitextToHtml post)]"
    by (simp add: renderNodes_def w)
  show "renderNodes isOrdered [Node (pre @ linkNotation target display @ post) cs] =
            ListEl isOrdered
              [LiDetails (pre @ anchorElement (concat (map escapeChar target))
                            (concat (map escapeChar display)) @ wikitextToHtml post)
                 (renderNodes isOrdered cs)]" if "cs \<noteq> []"
    using that by (simp add: renderNodes_def w)
next
  assume "CHR ''['' \<notin> set pre'"
  then show "noMatchWithin pre' rest" by (rule noMatchWithin_no_bracket)
next
  show "escapeHtml s = concat (map escapeChar s)"
    by (rule escapeHtml_escapeChar)
qed

theorem wikilink_escaped_anchor_witness:
  "''a&b'' \<noteq> [] \<and> CHR '']'' \<notin> set ''a&b'' \<and> CHR ''|'' \<notin> set ''a&b'' \<and>
   ''<x>'' @ [dquote] \<noteq> [] \<and> CHR '']'' \<notin> set (''<x>'' @ [dquote]) \<and>
   noMatchWithin ''[[#x]] see '' (linkNotation ''a&b'' (''<x>'' @ [dquote]) @ '' end'') \<and>
   wikitextToHtml (''[[#x]] see '' @ linkNotation ''a&b'' (''<x>'' @ [dquote]) @ '' end'') =
     ''[[#x]] see '' @ anchorElement ''a&amp;b'' ''&lt;x&gt;&quot;'' @ '' end'' \<and>
   renderNodes False
     [Node (''[[#x]] see '' @ linkNotation ''a&b'' (''<x>'' @ [dquote]) @ '' end'') []] =
     ListEl False
       [LiHtml (''[[#x]] see '' @ anchorElement ''a&amp;b'' ''&lt;x&gt;&quot;'' @ '' end'')] \<and>
   [Node ''y'' []] \<noteq> [] \<and>
   renderNodes False
     [Node (''[[#x]] see '' @ linkNotation ''a&b'' (''<x>'' @ [dquote]) @ '' end'')
        [Node ''y'' []]] =
     ListEl False
       [LiDetails (''[[#x]] see '' @ anchorElement ''a&amp;b'' ''&lt;x&gt;&quot;'' @ '' end'')
          (ListEl False [LiHtml ''y''])] \<and>
   CHR ''['' \<notin> set ''see '' \<and> noMatchWithin ''see '' ''[[#a|b]]''"
proof -
  have post: "wikitextToHtml '' end'' = '' end''"
    by (rule wikitextToHtml_no_pipe) simp
  have y: "wikitextToHtml ''y'' = ''y''"
    by (rule wikitextToHtml_no_pipe) simp
  have bare: "matchLink (''[[#x]] see '' @ r) = None" for r
    by (simp add: matchLink_def take3 drop3 isLinkChar_def)
  have pre: "noMatchWithin ''[[#x]] see '' r" for r
    using bare [of r] noMatchWithin_no_bracket [of "'' see ''" r]
    by (simp add: matchLink_not_bracket del: matchLink_not_bracket)
      (simp add: matchLink_def numeral_3_eq_3)
  have sub: "renderNodes False [Node ''y'' []] = ListEl False [LiHtml ''y'']"
    by (simp add: renderNodes_def y del: wikitextToHtml.simps)
  show ?thesis
    using wikilink_escaped_anchor [of "''a&b''" "''<x>'' @ [dquote]" "''[[#x]] see ''" "'' end''"
        False "[Node ''y'' []]" "''see ''" "''[[#a|b]]''"] pre
    by (simp add: post sub escapeChar_def dquote_def
          del: wikitextToHtml.simps noMatchWithin.simps)
qed

text \<open>
  Claim C10.  Outside the two-part link notation \<^verbatim>\<open>wikitextToHtml\<close> copies its input: a
  stretch of text in which no match starts comes out unchanged in front of the translation
  of the rest; text without \<^verbatim>\<open>|\<close> (so every one-part link \<^verbatim>\<open>[[#target]]\<close>, and any \<^verbatim>\<open>&\<close>, \<^verbatim>\<open><\<close>,
  \<^verbatim>\<open>>\<close> and double quote in it) comes out unchanged as a whole; and \<^verbatim>\<open>renderNodes\<close> stores the
  result unescaped as the \<^verbatim>\<open>innerHTML\<close> of the list item or of the summary.
\<close>

theorem wikitext_verbatim_outside_links:
  "(noMatchWithin pre rest \<longrightarrow> wikitextToHtml (pre @ rest) = pre @ wikitextToHtml rest) \<and>
   (CHR ''|'' \<notin> set s \<longrightarrow> wikitextToHtml s = s) \<and>
   (CHR ''|'' \<notin> set target \<longrightarrow>
      wikitextToHtml (''[[#'' @ target @ '']]'') = ''[[#'' @ target @ '']]'') \<and>
   (CHR ''|'' \<notin> set s \<longrightarrow> renderNodes isOrdered [Node s []] = ListEl isOrdered [LiHtml s]) \<and>
   (CHR ''|'' \<notin> set s \<and> cs \<noteq> [] \<longrightarrow>
      renderNodes isOrdered [Node s cs] =
        ListEl isOrdered [LiDetails s (renderNodes isOrdered cs)])"
proof (intro conjI impI)
  assume "noMatchWithin pre rest"
  then show "wikitextToHtml (pre @ rest) = pre @ wikitextToHtml rest"
    by (rule wikitextToHtml_unmatched_prefix)
next
  assume "CHR ''|'' \<notin> set s"
  then show "wikitextToHtml s = s" by (rule wikitextToHtml_no_pipe)
next
  assume "CHR ''|'' \<notin> set target"
  then have "CHR ''|'' \<notin> set (''[[#'' @ target @ '']]'')" by simp
  then show "wikitextToHtml (''[[#'' @ target @ '']]'') = ''[[#'' @ target @ '']]''"
    by (rule wikitextToHtml_no_pipe)
next
  assume "CHR ''|'' \<notin> set s"
  then have "wikitextToHtml s = s" by (rule wikitextToHtml_no_pipe)
  then show "renderNodes isOrdered [Node s []] = ListEl isOrdered [LiHtml s]"
    by (simp add: renderNodes_def)
next
  assume a: "CHR ''|'' \<notin> set s \<and> cs \<noteq> []"
  then have "wikitextToHtml s = s" by (intro wikitextToHtml_no_pipe) simp
  with a show "renderNodes isOrdered [Node s cs] =
        ListEl isOrdered [LiDetails s (renderNodes isOrdered cs)]"
    by (simp add: renderNodes_def)
qed

theorem wikitext_verbatim_outside_links_witness:
  "noMatchWithin (''a<b>&'' @ [dquote]) (linkNotation ''t'' ''d'') \<and>
   wikitextToHtml ((''a<b>&'' @ [dquote]) @ linkNotation ''t'' ''d'') =
     (''a<b>&'' @ [dquote]) @ anchorElement ''t'' ''d'' \<and>
   CHR ''|'' \<notin> set (''<b>&'' @ [dquote] @ ''[[#x]]'') \<and>
   wikitextToHtml (''<b>&'' @ [dquote] @ ''[[#x]]'') = ''<b>&'' @ [dquote] @ ''[[#x]]'' \<and>
   CHR ''|'' \<notin> set ''x<y'' \<and>
   wikitextToHtml (''[[#'' @ ''x<y'' @ '']]'') = ''[[#x<y]]'' \<and>
   renderNodes False [Node (''<b>&'' @ [dquote] @ ''[[#x]]'') []] =
     ListEl False [LiHtml (''<b>&'' @ [dquote] @ ''[[#x]]'')] \<and>
   [Node ''y'' []] \<noteq> [] \<and>
   renderNodes True [Node (''<b>&'' @ [dquote] @ ''[[#x]]'') [Node ''y'' []]] =
     ListEl True [LiDetails (''<b>&'' @ [dquote] @ ''[[#x]]'') (ListEl True [LiHtml ''y''])]"
proof -
  have link: "wikitextToHtml (linkNotation ''t'' ''d'') = anchorElement ''t'' ''d''"
    using wikitextToHtml_linkNotation [of "''t''" "''d''" "[]"]
    by (simp add: isLinkChar_def isDisplayChar_def anchor_def anchorElement_def
          escapeHtml_escapeChar escapeChar_def dquote_def)
  have y: "wikitextToHtml ''y'' = ''y''"
    by (rule wikitextToHtml_no_pipe) simp
  have pre: "noMatchWithin (''a<b>&'' @ [dquote]) (linkNotation ''t'' ''d'')"
    by (rule noMatchWithin_no_bracket) (simp add: dquote_def)
  show ?thesis
    using wikitext_verbatim_outside_links [where s = "''<b>&'' @ [dquote] @ ''[[#x]]''"
        and pre = "''a<b>&'' @ [dquote]" and rest = "linkNotation ''t'' ''d''"
        and target = "''x<y''" and isOrdered = False and cs = "[Node ''y'' []]"]
      wikitext_verbatim_outside_links [where s = "''<b>&'' @ [dquote] @ ''[[#x]]''"
        and pre = "[]" and rest = "[]" and target = "[]" and isOrdered = True
        and cs = "[Node ''y'' []]"] pre
    by (simp add: dquote_def link renderNodes_def y
          del: wikitextToHtml.simps noMatchWithin.simps)
qed

end
